theory Spec2Isabelle
  imports Main "HOL-Library.Word" "HOL-Library.Signed_Division"
begin

section \<open>Data model of coroutine.c\<close>

text \<open>
  The shared stack and the private buffers are arrays of \<^verbatim>\<open>char\<close>: lists of bytes.
  An address inside the shared stack is given as its offset from \<^verbatim>\<open>S->stack\<close>.
\<close>

type_synonym byte = "8 word"

definition STACK_SIZE :: int where
  "STACK_SIZE = 1024 * 1024"

definition DEFAULT_COROUTINE :: int where
  "DEFAULT_COROUTINE = 16"

text \<open>
  The integers \<^verbatim>\<open>nco\<close>, \<^verbatim>\<open>cap\<close>, \<^verbatim>\<open>running\<close> and the loop index are C \<^verbatim>\<open>int\<close>s (32 bits,
  signed). They are modelled as \<^typ>\<open>int\<close>, and every arithmetic operation of the source
  on them is checked against the range: leaving it is undefined behaviour.
\<close>

definition INT_MAX :: int where
  "INT_MAX = 2147483647"

definition INT_MIN :: int where
  "INT_MIN = - 2147483648"

definition int_ok :: "int \<Rightarrow> bool" where
  "int_ok x \<longleftrightarrow> INT_MIN \<le> x \<and> x \<le> INT_MAX"

text \<open>
  Modelled from the spec: the header \<^verbatim>\<open>coroutine.h\<close>, which defines the status constants
  \<^verbatim>\<open>COROUTINE_DEAD\<close>, \<^verbatim>\<open>COROUTINE_READY\<close>, \<^verbatim>\<open>COROUTINE_RUNNING\<close> and \<^verbatim>\<open>COROUTINE_SUSPEND\<close>,
  is not among the sources. The spec gives the state as one of Ready, Running, Suspended,
  Dead; the four constants are the constructors of a datatype.
\<close>

datatype co_status = COROUTINE_DEAD | COROUTINE_READY | COROUTINE_RUNNING | COROUTINE_SUSPEND

text \<open>
  \<^verbatim>\<open>struct coroutine\<close>. The entry function and its user data are opaque (\<open>'f\<close>, \<open>'u\<close>).
  \<open>co_cap\<close>, \<open>co_size\<close> and \<open>co_stack\<close> are the fields \<^verbatim>\<open>cap\<close>, \<^verbatim>\<open>size\<close> and \<^verbatim>\<open>stack\<close>; the
  buffer \<^verbatim>\<open>stack\<close> is the list of its allocated bytes (\<^verbatim>\<open>NULL\<close> is the empty list). The saved
  register context \<^verbatim>\<open>ctx\<close> belongs to the external context primitive and the back pointer
  \<^verbatim>\<open>sch\<close> is never read; both are left out.
\<close>

record ('f, 'u) coroutine =
  func :: 'f
  ud :: 'u
  co_cap :: int
  co_size :: int
  status :: co_status
  co_stack :: "byte list"

text \<open>
  \<^verbatim>\<open>struct schedule\<close>. The table \<^verbatim>\<open>co\<close> is the list of its allocated slots, a \<^verbatim>\<open>NULL\<close> slot
  is \<open>None\<close>. Every non-empty slot points to an object of its own (each comes from its own
  \<^verbatim>\<open>malloc\<close> and leaves the table when it is freed), so a slot holds the object's value.
\<close>

record ('f, 'u) schedule =
  stack :: "byte list"
  nco :: int
  cap :: int
  running :: int
  co :: "('f, 'u) coroutine option list"

text \<open>
  A failed \<^verbatim>\<open>assert\<close> aborts the process. Reading or writing outside an allocated block,
  dereferencing \<^verbatim>\<open>NULL\<close> and signed overflow are undefined behaviour.
\<close>

datatype error = Assert_Failed | Undefined_Behaviour

section \<open>Operations\<close>

definition co_new :: "'f \<Rightarrow> 'u \<Rightarrow> ('f, 'u) coroutine" where
  "co_new f u =
     \<lparr>func = f, ud = u, co_cap = 0, co_size = 0, status = COROUTINE_READY, co_stack = []\<rparr>"

text \<open>
  \<^verbatim>\<open>coroutine_open\<close>. The block returned by \<^verbatim>\<open>malloc\<close> holds indeterminate bytes: \<open>mem\<close> is the
  content the shared stack starts with.
\<close>

definition coroutine_open :: "byte list \<Rightarrow> ('f, 'u) schedule" where
  "coroutine_open mem =
     \<lparr>stack = mem, nco = 0, cap = DEFAULT_COROUTINE, running = - 1,
      co = replicate (nat DEFAULT_COROUTINE) None\<rparr>"

text \<open>
  \<^verbatim>\<open>memcpy(dst + doff, src + soff, n)\<close>: a negative \<open>n\<close> becomes a huge \<^verbatim>\<open>size_t\<close>, and a copy
  that leaves either block is undefined.
\<close>

definition memcpy :: "byte list \<Rightarrow> int \<Rightarrow> byte list \<Rightarrow> int \<Rightarrow> int \<Rightarrow> error + byte list" where
  "memcpy dst doff src soff n =
     (if n < 0 \<or> doff < 0 \<or> soff < 0 \<or> int (length dst) < doff + n \<or> int (length src) < soff + n
      then Inl Undefined_Behaviour
      else Inr (take (nat doff) dst @ take (nat n) (drop (nat soff) src) @ drop (nat (doff + n)) dst))"

text \<open>
  The scan of \<^verbatim>\<open>coroutine_new\<close>: \<^verbatim>\<open>for (i=0;i<S->cap;i++)\<close> with \<^verbatim>\<open>id = (i+S->nco) % S->cap\<close>,
  from index \<open>i\<close> on. It returns the first \<^verbatim>\<open>id\<close> whose slot is \<^verbatim>\<open>NULL\<close>; when the loop ends
  without one, \<^verbatim>\<open>assert(0)\<close> is reached. C's \<^verbatim>\<open>%\<close> truncates towards zero (\<open>smod\<close>).
\<close>

function scan :: "'a option list \<Rightarrow> int \<Rightarrow> int \<Rightarrow> int \<Rightarrow> error + int" where
  "scan tab n c i =
     (if i < c then
        (if \<not> int_ok (i + n) then Inl Undefined_Behaviour
         else let cid = (i + n) smod c in
           if cid < 0 \<or> int (length tab) \<le> cid then Inl Undefined_Behaviour
           else if tab ! nat cid = None then Inr cid
           else scan tab n c (i + 1))
      else Inl Assert_Failed)"
  by pat_completeness auto
termination
  by (relation "measure (\<lambda>(tab, n, c, i). nat (c - i))") auto

declare scan.simps [simp del]

text \<open>
  \<^verbatim>\<open>coroutine_new\<close> returns the id and the new scheduler. In the full branch \<^verbatim>\<open>realloc\<close> keeps
  the first \<^verbatim>\<open>cap\<close> slots and \<^verbatim>\<open>memset\<close> clears the \<^verbatim>\<open>cap\<close> new ones.
\<close>

definition coroutine_new ::
  "('f, 'u) schedule \<Rightarrow> 'f \<Rightarrow> 'u \<Rightarrow> error + (int \<times> ('f, 'u) schedule)" where
  "coroutine_new S f u =
     (let c = co_new f u in
      if nco S \<ge> cap S then
        (if \<not> int_ok (cap S * 2) \<or> \<not> int_ok (nco S + 1) \<or> cap S < 0
           \<or> int (length (co S)) < cap S
         then Inl Undefined_Behaviour
         else Inr (cap S,
                S\<lparr>co := (take (nat (cap S)) (co S) @ replicate (nat (cap S)) None)
                          [nat (cap S) := Some c],
                  cap := cap S * 2,
                  nco := nco S + 1\<rparr>))
      else
        (case scan (co S) (nco S) (cap S) 0 of
           Inl e \<Rightarrow> Inl e
         | Inr cid \<Rightarrow>
             if \<not> int_ok (nco S + 1) then Inl Undefined_Behaviour
             else Inr (cid, S\<lparr>co := (co S)[nat cid := Some c], nco := nco S + 1\<rparr>)))"

text \<open>
  \<^verbatim>\<open>mainfunc\<close>, the statements after \<^verbatim>\<open>C->func(S,C->ud)\<close> has returned. \<open>cid\<close> is the local
  \<^verbatim>\<open>id\<close>, read from \<^verbatim>\<open>S->running\<close> when the trampoline started, and \<^verbatim>\<open>C\<close> the object its slot
  holds. \<^verbatim>\<open>_co_delete\<close> frees the object; the slot is cleared, the count decremented and
  the running id reset. Control then falls through to the successor context \<^verbatim>\<open>S->main\<close>.
\<close>

definition mainfunc :: "('f, 'u) schedule \<Rightarrow> int \<Rightarrow> error + ('f, 'u) schedule" where
  "mainfunc S cid =
     (if cid < 0 \<or> int (length (co S)) \<le> cid then Inl Undefined_Behaviour
      else case co S ! nat cid of
        None \<Rightarrow> Inl Undefined_Behaviour
      | Some C \<Rightarrow>
          if \<not> int_ok (nco S - 1) then Inl Undefined_Behaviour
          else Inr (S\<lparr>co := (co S)[nat cid := None], nco := nco S - 1, running := - 1\<rparr>))"

text \<open>
  \<^verbatim>\<open>coroutine_resume\<close> up to its \<^verbatim>\<open>swapcontext\<close>. The result says how control leaves the
  modelled part: the function returned at once, or it switched from the main context into
  a context made afresh for the trampoline (\<^verbatim>\<open>makecontext\<close>), or into the coroutine's saved
  context.
\<close>

datatype transfer = Returned | Switch_Fresh | Switch_Saved

definition coroutine_resume ::
  "('f, 'u) schedule \<Rightarrow> int \<Rightarrow> error + (transfer \<times> ('f, 'u) schedule)" where
  "coroutine_resume S cid =
     (if running S \<noteq> - 1 then Inl Assert_Failed
      else if \<not> (cid \<ge> 0 \<and> cid < cap S) then Inl Assert_Failed
      else if int (length (co S)) \<le> cid then Inl Undefined_Behaviour
      else case co S ! nat cid of
        None \<Rightarrow> Inr (Returned, S)
      | Some C \<Rightarrow>
          (case status C of
             COROUTINE_READY \<Rightarrow>
               Inr (Switch_Fresh,
                    S\<lparr>co := (co S)[nat cid := Some (C\<lparr>status := COROUTINE_RUNNING\<rparr>)],
                      running := cid\<rparr>)
           | COROUTINE_SUSPEND \<Rightarrow>
               (case memcpy (stack S) (STACK_SIZE - co_size C) (co_stack C) 0 (co_size C) of
                  Inl e \<Rightarrow> Inl e
                | Inr mem \<Rightarrow>
                    Inr (Switch_Saved,
                         S\<lparr>stack := mem,
                           running := cid,
                           co := (co S)[nat cid := Some (C\<lparr>status := COROUTINE_RUNNING\<rparr>)]\<rparr>))
           | _ \<Rightarrow> Inl Assert_Failed))"

text \<open>
  \<^verbatim>\<open>_save_stack(C, top)\<close>, running on the memory \<open>mem\<close> of the shared stack. \<open>top'\<close> and
  \<open>dummy\<close> are the offsets of \<^verbatim>\<open>top\<close> and of \<^verbatim>\<open>&dummy\<close> from the start of the shared stack.
  The local \<^verbatim>\<open>dummy\<close> is initialised to 0 where it lives. A block fresh from \<^verbatim>\<open>malloc\<close> is
  indeterminate; it is given as zeros, and the copy that follows overwrites all of it.
  It returns the coroutine and the memory.
\<close>

definition save_stack ::
  "('f, 'u) coroutine \<Rightarrow> byte list \<Rightarrow> int \<Rightarrow> int \<Rightarrow> error + (('f, 'u) coroutine \<times> byte list)" where
  "save_stack C mem top' dummy =
     (let mem1 = (if 0 \<le> dummy \<and> dummy < int (length mem) then mem[nat dummy := 0] else mem) in
      if \<not> top' - dummy \<le> STACK_SIZE then Inl Assert_Failed
      else
        let C1 = (if co_cap C < top' - dummy
                  then C\<lparr>co_cap := top' - dummy, co_stack := replicate (nat (top' - dummy)) 0\<rparr>
                  else C);
            C2 = C1\<lparr>co_size := top' - dummy\<rparr>
        in case memcpy (co_stack C2) 0 mem1 dummy (co_size C2) of
             Inl e \<Rightarrow> Inl e
           | Inr buf \<Rightarrow> Inr (C2\<lparr>co_stack := buf\<rparr>, mem1))"

text \<open>
  \<^verbatim>\<open>coroutine_yield\<close> up to its \<^verbatim>\<open>swapcontext\<close> back into the main context. \<open>addr_C\<close> is the
  offset of the local \<^verbatim>\<open>C\<close> of \<^verbatim>\<open>coroutine_yield\<close> from the start of the shared stack,
  \<open>addr_dummy\<close> that of the local \<^verbatim>\<open>dummy\<close> of \<^verbatim>\<open>_save_stack\<close>. With \<^verbatim>\<open>C == NULL\<close>,
  \<^verbatim>\<open>_save_stack\<close> passes its assertion before it reads \<^verbatim>\<open>C->cap\<close>.
\<close>

definition coroutine_yield ::
  "('f, 'u) schedule \<Rightarrow> int \<Rightarrow> int \<Rightarrow> error + ('f, 'u) schedule" where
  "coroutine_yield S addr_C addr_dummy =
     (let cid = running S in
      if \<not> cid \<ge> 0 then Inl Assert_Failed
      else if int (length (co S)) \<le> cid then Inl Undefined_Behaviour
      else if \<not> addr_C > 0 then Inl Assert_Failed
      else case co S ! nat cid of
        None \<Rightarrow>
          (if \<not> STACK_SIZE - addr_dummy \<le> STACK_SIZE then Inl Assert_Failed
           else Inl Undefined_Behaviour)
      | Some C \<Rightarrow>
          (case save_stack C (stack S) STACK_SIZE addr_dummy of
             Inl e \<Rightarrow> Inl e
           | Inr (C', mem) \<Rightarrow>
               Inr (S\<lparr>stack := mem,
                      co := (co S)[nat cid := Some (C'\<lparr>status := COROUTINE_SUSPEND\<rparr>)],
                      running := - 1\<rparr>)))"

definition coroutine_status :: "('f, 'u) schedule \<Rightarrow> int \<Rightarrow> error + co_status" where
  "coroutine_status S cid =
     (if \<not> (cid \<ge> 0 \<and> cid < cap S) then Inl Assert_Failed
      else if int (length (co S)) \<le> cid then Inl Undefined_Behaviour
      else case co S ! nat cid of
        None \<Rightarrow> Inr COROUTINE_DEAD
      | Some C \<Rightarrow> Inr (status C))"

definition coroutine_running :: "('f, 'u) schedule \<Rightarrow> int" where
  "coroutine_running S = running S"

section \<open>Well-formed schedulers and runs\<close>

text \<open>The number of non-empty slots of a table.\<close>

definition live :: "'a option list \<Rightarrow> nat" where
  "live tab = length (filter (\<lambda>x. x \<noteq> None) tab)"

text \<open>
  What every coroutine object in a table satisfies: the recorded size is what the last
  yield copied, within the buffer and within the shared stack, and \<open>co_cap\<close> is the
  allocated length of the buffer.
\<close>

definition co_wf :: "('f, 'u) coroutine \<Rightarrow> bool" where
  "co_wf C \<longleftrightarrow>
     0 \<le> co_size C \<and> co_size C \<le> co_cap C \<and> co_size C \<le> STACK_SIZE
     \<and> int (length (co_stack C)) = co_cap C"

definition slots_wf :: "('f, 'u) coroutine option list \<Rightarrow> bool" where
  "slots_wf tab \<longleftrightarrow> (\<forall>x\<in>set tab. case x of None \<Rightarrow> True | Some C \<Rightarrow> co_wf C)"

text \<open>
  The schedulers that \<^verbatim>\<open>coroutine_open\<close> and the operations produce: the shared stack has
  \<open>STACK_SIZE\<close> bytes, the table has \<open>cap\<close> slots, \<open>cap\<close> is the default capacity doubled
  some number of times within the range of \<^verbatim>\<open>int\<close>, and \<open>nco\<close> counts the non-empty slots.
\<close>

definition schedule_wf :: "('f, 'u) schedule \<Rightarrow> bool" where
  "schedule_wf S \<longleftrightarrow>
     int (length (stack S)) = STACK_SIZE
     \<and> int (length (co S)) = cap S
     \<and> (\<exists>k\<in>{0..26::nat}. cap S = DEFAULT_COROUTINE * 2 ^ k)
     \<and> nco S = int (live (co S))
     \<and> slots_wf (co S)"

text \<open>
  The invariant of the running id: it is \<open>- 1\<close>, or the index of a slot that holds a
  coroutine whose status is \<^verbatim>\<open>COROUTINE_RUNNING\<close>.
\<close>

definition running_ok :: "('f, 'u) schedule \<Rightarrow> bool" where
  "running_ok S \<longleftrightarrow>
     running S = - 1
     \<or> (0 \<le> running S \<and> running S < cap S \<and> running S < int (length (co S))
        \<and> (case co S ! nat (running S) of
              None \<Rightarrow> False
            | Some C \<Rightarrow> status C = COROUTINE_RUNNING))"

text \<open>
  What happens to a scheduler over time, as a sequence of events: a call of
  \<^verbatim>\<open>coroutine_new\<close>, \<^verbatim>\<open>coroutine_resume\<close>, \<^verbatim>\<open>coroutine_yield\<close> (with the two stack addresses
  of the call), \<^verbatim>\<open>coroutine_status\<close> or \<^verbatim>\<open>coroutine_running\<close>; the entry function of the running
  coroutine returning into \<^verbatim>\<open>mainfunc\<close> (\<open>Finish\<close>), whose local \<^verbatim>\<open>id\<close> is the running id;
  and the code that executes on the shared stack storing a byte into it (\<open>Store\<close>).
  \<open>exec\<close> keeps the scheduler and drops the value an operation returns; \<open>run\<close> stops at
  the first abort.
\<close>

datatype ('f, 'u) event =
    New 'f 'u
  | Resume int
  | Yield int int
  | Finish
  | Status int
  | Running
  | Store int byte

fun exec :: "('f, 'u) event \<Rightarrow> ('f, 'u) schedule \<Rightarrow> error + ('f, 'u) schedule" where
  "exec (New f u) S = (case coroutine_new S f u of Inl e \<Rightarrow> Inl e | Inr (cid, S') \<Rightarrow> Inr S')"
| "exec (Resume cid) S =
     (case coroutine_resume S cid of Inl e \<Rightarrow> Inl e | Inr (t, S') \<Rightarrow> Inr S')"
| "exec (Yield addr_C addr_dummy) S = coroutine_yield S addr_C addr_dummy"
| "exec Finish S = mainfunc S (running S)"
| "exec (Status cid) S = (case coroutine_status S cid of Inl e \<Rightarrow> Inl e | Inr s \<Rightarrow> Inr S)"
| "exec Running S = (let r = coroutine_running S in Inr S)"
| "exec (Store i b) S =
     (if 0 \<le> i \<and> i < int (length (stack S)) then Inr (S\<lparr>stack := (stack S)[nat i := b]\<rparr>)
      else Inl Undefined_Behaviour)"

fun run :: "('f, 'u) event list \<Rightarrow> ('f, 'u) schedule \<Rightarrow> error + ('f, 'u) schedule" where
  "run [] S = Inr S"
| "run (e # es) S = (case exec e S of Inl x \<Rightarrow> Inl x | Inr S' \<Rightarrow> run es S')"

section \<open>Example schedulers\<close>

text \<open>A fresh scheduler on a zeroed stack, with natural numbers for functions and user data.\<close>

definition mem0 :: "byte list" where
  "mem0 = replicate (nat STACK_SIZE) 0"

definition sched_fresh :: "(nat, nat) schedule" where
  "sched_fresh = coroutine_open mem0"

text \<open>
  A scheduler whose coroutine 0 is running and has never yielded; the three bytes at the
  top of the shared stack are 7, 8, 9.
\<close>

definition co_running :: "(nat, nat) coroutine" where
  "co_running =
     \<lparr>func = 0, ud = 0, co_cap = 0, co_size = 0, status = COROUTINE_RUNNING, co_stack = []\<rparr>"

definition sched_running :: "(nat, nat) schedule" where
  "sched_running =
     \<lparr>stack = replicate (nat (STACK_SIZE - 3)) 0 @ [7, 8, 9], nco = 1, cap = 16, running = 0,
      co = Some co_running # replicate 15 None\<rparr>"

text \<open>
  A scheduler whose coroutine 0 is suspended with three saved bytes in a buffer of four.
\<close>

definition co_suspended :: "(nat, nat) coroutine" where
  "co_suspended =
     \<lparr>func = 0, ud = 0, co_cap = 4, co_size = 3, status = COROUTINE_SUSPEND,
      co_stack = [1, 2, 3, 4]\<rparr>"

definition sched_suspended :: "(nat, nat) schedule" where
  "sched_suspended =
     \<lparr>stack = mem0, nco = 1, cap = 16, running = - 1,
      co = Some co_suspended # replicate 15 None\<rparr>"

text \<open>
  A table with one live coroutine in slot 1 (slot 0 was freed), a full table of the default
  capacity, and a full table of \<open>2 ^ 30\<close> slots.
\<close>

definition sched_sparse :: "(nat, nat) schedule" where
  "sched_sparse =
     \<lparr>stack = mem0, nco = 1, cap = 16, running = - 1,
      co = None # Some (co_new 0 0) # replicate 14 None\<rparr>"

definition sched_full :: "(nat, nat) schedule" where
  "sched_full =
     \<lparr>stack = mem0, nco = 16, cap = 16, running = - 1, co = replicate 16 (Some (co_new 0 0))\<rparr>"

definition sched_huge :: "(nat, nat) schedule" where
  "sched_huge =
     \<lparr>stack = mem0, nco = 1073741824, cap = 1073741824, running = - 1,
      co = replicate 1073741824 (Some (co_new 0 0))\<rparr>"

text \<open>
  The events that lead from the fresh scheduler to the running example; the running
  example after its coroutine 0 has yielded from a frame three bytes below the top; a
  trace in which a second coroutine is registered, started, overwrites the top of the
  shared stack and finishes; and the scheduler after that trace.
\<close>

definition sched_yielded :: "(nat, nat) schedule" where
  "sched_yielded =
     sched_running\<lparr>stack := replicate 1048573 0 @ [0, 8, 9],
       co := (co sched_running)[0 := Some (co_running\<lparr>co_cap := 3, co_size := 3,
                co_stack := [0, 8, 9], status := COROUTINE_SUSPEND\<rparr>)],
       running := - 1\<rparr>"

definition start :: "(nat, nat) event list" where
  "start = [New 0 0, Resume 0, Store 1048573 7, Store 1048574 8, Store 1048575 9]"

definition trace :: "(nat, nat) event list" where
  "trace = [New 5 6, Resume 1, Store 1048574 41, Store 1048575 42, Finish]"

definition sched_later :: "(nat, nat) schedule" where
  "sched_later =
     sched_yielded\<lparr>stack := replicate 1048573 0 @ [0, 41, 42],
       co := (co sched_yielded)[1 := None]\<rparr>"

section \<open>Tables and the scan\<close>

lemma live_Nil [simp]: "live [] = 0"
  by (simp add: live_def)

lemma live_Cons [simp]: "live (x # xs) = (if x = None then live xs else Suc (live xs))"
  by (simp add: live_def)

lemma live_append [simp]: "live (xs @ ys) = live xs + live ys"
  by (simp add: live_def)

lemma live_replicate_None [simp]: "live (replicate n None) = 0"
  by (simp add: live_def)

lemma live_replicate_Some [simp]: "live (replicate n (Some c)) = n"
  by (simp add: live_def)

lemma live_le_length: "live tab \<le> length tab"
  by (simp add: live_def)

lemma live_update:
  "i < length tab \<Longrightarrow>
   live (tab[i := v]) + (if tab ! i = None then 0 else 1) = live tab + (if v = None then 0 else 1)"
proof (induction tab arbitrary: i)
  case Nil
  then show ?case by simp
next
  case (Cons x xs)
  show ?case
  proof (cases i)
    case 0
    then show ?thesis by simp
  next
    case (Suc j)
    with Cons.prems have "j < length xs" by simp
    from Cons.IH [OF this] Suc show ?thesis by (cases "x = None") auto
  qed
qed

lemma live_update_fill:
  "i < length tab \<Longrightarrow> tab ! i = None \<Longrightarrow> live (tab[i := Some c]) = Suc (live tab)"
  using live_update [of i tab "Some c"] by simp

lemma live_update_keep:
  "i < length tab \<Longrightarrow> tab ! i = Some c \<Longrightarrow> live (tab[i := Some c']) = live tab"
  using live_update [of i tab "Some c'"] by simp

lemma live_update_clear:
  "i < length tab \<Longrightarrow> tab ! i = Some c \<Longrightarrow> Suc (live (tab[i := None])) = live tab"
  using live_update [of i tab None] by simp

lemma live_less_empty_slot:
  "live tab < length tab \<Longrightarrow> \<exists>j<length tab. tab ! j = None"
proof (induction tab)
  case Nil
  then show ?case by simp
next
  case (Cons x xs)
  show ?case
  proof (cases "x = None")
    case True
    then have "0 < length (x # xs) \<and> (x # xs) ! 0 = None" by simp
    then show ?thesis by blast
  next
    case False
    with Cons.prems have "live xs < length xs" by simp
    from Cons.IH [OF this] obtain j where "j < length xs" "xs ! j = None" by blast
    then have "Suc j < length (x # xs) \<and> (x # xs) ! Suc j = None" by simp
    then show ?thesis by blast
  qed
qed

lemma smod_nonneg: "0 \<le> a \<Longrightarrow> 0 < b \<Longrightarrow> (a::int) smod b = a mod b"
  by (cases "a = 0") (simp_all add: signed_modulo_int_def)

lemma scan_found:
  assumes "0 \<le> n" and "int (length tab) = c" and "c + n \<le> INT_MAX"
    and "0 \<le> i" and "i \<le> j" and "j < c"
    and "tab ! nat ((j + n) mod c) = None"
    and "\<forall>j'. i \<le> j' \<and> j' < j \<longrightarrow> tab ! nat ((j' + n) mod c) \<noteq> None"
  shows "scan tab n c i = Inr ((j + n) mod c)"
  using assms
proof (induction tab n c i rule: scan.induct)
  case (1 tab n c i)
  from "1.prems" have c: "0 < c" and ic: "i < c" by simp_all
  from "1.prems" ic have ok: "int_ok (i + n)"
    by (simp add: int_ok_def INT_MIN_def)
  from "1.prems" c have sm: "(i + n) smod c = (i + n) mod c"
    by (simp add: smod_nonneg)
  from c have rng: "0 \<le> (i + n) mod c" "(i + n) mod c < c" by simp_all
  with "1.prems"(2) have inb: "\<not> ((i + n) mod c < 0 \<or> int (length tab) \<le> (i + n) mod c)"
    by simp
  show ?case
  proof (cases "i = j")
    case True
    with "1.prems"(7) ic ok sm inb show ?thesis
      by (subst scan.simps) (simp add: Let_def)
  next
    case False
    with "1.prems" have lt: "i < j" by simp
    with "1.prems"(8) "1.prems"(4) have full: "tab ! nat ((i + n) mod c) \<noteq> None" by simp
    have rec: "scan tab n c (i + 1) = Inr ((j + n) mod c)"
    proof (rule "1.IH")
      show "i < c" by (rule ic)
      show "\<not> \<not> int_ok (i + n)" using ok by simp
      show "(i + n) smod c = (i + n) smod c" by (rule refl)
      show "\<not> ((i + n) smod c < 0 \<or> int (length tab) \<le> (i + n) smod c)" using inb sm by simp
      show "tab ! nat ((i + n) smod c) \<noteq> None" using full sm by simp
      show "\<forall>j'. i + 1 \<le> j' \<and> j' < j \<longrightarrow> tab ! nat ((j' + n) mod c) \<noteq> None"
        using "1.prems"(8) by simp
    qed (use "1.prems" lt in simp_all)
    with ic ok sm inb full show ?thesis
      by (subst scan.simps) (auto simp add: Let_def)
  qed
qed

lemma scan_first_slot:
  assumes "\<exists>k<length tab. tab ! k = None" and "int (length tab) = c" and "0 \<le> n"
  shows "\<exists>j. 0 \<le> j \<and> j < c \<and> tab ! nat ((j + n) mod c) = None
            \<and> (\<forall>j'. 0 \<le> j' \<and> j' < j \<longrightarrow> tab ! nat ((j' + n) mod c) \<noteq> None)"
proof -
  from assms obtain k where k: "k < length tab" "tab ! k = None" by blast
  with assms(2) have c: "0 < c" by auto
  define P where "P m \<longleftrightarrow> int m < c \<and> tab ! nat ((int m + n) mod c) = None" for m
  have "((int k - n) mod c + n) mod c = int k"
    using k(1) assms(2) by (simp add: mod_add_left_eq)
  moreover have "0 \<le> (int k - n) mod c" "(int k - n) mod c < c" using c by simp_all
  ultimately have "P (nat ((int k - n) mod c))"
    using k(2) by (simp add: P_def)
  then have "\<exists>m. P m" ..
  then obtain m where m: "P m" "\<forall>m'<m. \<not> P m'"
    using exists_least_iff [of P] by blast
  have "\<forall>j'. 0 \<le> j' \<and> j' < int m \<longrightarrow> tab ! nat ((j' + n) mod c) \<noteq> None"
  proof (intro allI impI)
    fix j' :: int
    assume j': "0 \<le> j' \<and> j' < int m"
    then have "nat j' < m" by linarith
    with m(2) have "\<not> P (nat j')" by blast
    moreover from j' m(1) have "int (nat j') < c" by (simp add: P_def)
    ultimately show "tab ! nat ((j' + n) mod c) \<noteq> None" using j' by (simp add: P_def)
  qed
  with m(1) have "0 \<le> int m \<and> int m < c \<and> tab ! nat ((int m + n) mod c) = None
      \<and> (\<forall>j'. 0 \<le> j' \<and> j' < int m \<longrightarrow> tab ! nat ((j' + n) mod c) \<noteq> None)"
    by (simp add: P_def)
  then show ?thesis by blast
qed

section \<open>Well-formedness is preserved\<close>

lemma slots_wf_update:
  "slots_wf tab \<Longrightarrow> (case v of None \<Rightarrow> True | Some C \<Rightarrow> co_wf C) \<Longrightarrow> slots_wf (tab[i := v])"
  unfolding slots_wf_def using set_update_subset_insert [of tab i v] by blast

lemma slots_wf_nth:
  "slots_wf tab \<Longrightarrow> i < length tab \<Longrightarrow> tab ! i = Some C \<Longrightarrow> co_wf C"
  unfolding slots_wf_def using nth_mem [of i tab] by force

lemma slots_wf_grow:
  "slots_wf tab \<Longrightarrow> slots_wf (tab @ replicate n None)"
  unfolding slots_wf_def by auto

lemma co_wf_co_new: "co_wf (co_new f u)"
  by (simp add: co_wf_def co_new_def STACK_SIZE_def)

lemma co_wf_status: "co_wf (C\<lparr>status := s\<rparr>) = co_wf C"
  by (simp add: co_wf_def)

lemma wf_cap_bounds:
  assumes "schedule_wf S"
  shows "16 \<le> cap S" and "cap S \<le> 2 ^ 30"
proof -
  from assms obtain k :: nat where k: "k \<le> 26" "cap S = 16 * 2 ^ k"
    by (auto simp: schedule_wf_def DEFAULT_COROUTINE_def)
  have "(1::int) \<le> 2 ^ k" by simp
  with k(2) show "16 \<le> cap S" by simp
  from k(1) have "(2::int) ^ k \<le> 2 ^ 26" by (rule power_increasing) simp
  with k(2) show "cap S \<le> 2 ^ 30" by simp
qed

lemma wf_cap_double:
  assumes "schedule_wf S" and "cap S < 2 ^ 30"
  shows "\<exists>k\<in>{0..26::nat}. cap S * 2 = DEFAULT_COROUTINE * 2 ^ k"
proof -
  from assms obtain k :: nat where k: "k \<le> 26" "cap S = 16 * 2 ^ k"
    by (auto simp: schedule_wf_def DEFAULT_COROUTINE_def)
  have "k \<noteq> 26"
  proof
    assume "k = 26"
    with k(2) assms(2) show False by simp
  qed
  with k(1) have "Suc k \<in> {0..26}" by simp
  moreover from k(2) have "cap S * 2 = DEFAULT_COROUTINE * 2 ^ Suc k"
    by (simp add: DEFAULT_COROUTINE_def)
  ultimately show ?thesis by blast
qed

lemma wf_nco_bounds: "schedule_wf S \<Longrightarrow> 0 \<le> nco S \<and> nco S \<le> cap S"
  using live_le_length [of "co S"] by (simp add: schedule_wf_def)

lemma new_full:
  assumes "schedule_wf S" and "cap S \<le> nco S" and "cap S < 2 ^ 30"
  shows "coroutine_new S f u =
    Inr (cap S, S\<lparr>co := (co S @ replicate (nat (cap S)) None)[nat (cap S) := Some (co_new f u)],
                  cap := cap S * 2, nco := nco S + 1\<rparr>)"
proof -
  from assms(1) have len: "int (length (co S)) = cap S" by (simp add: schedule_wf_def)
  from wf_cap_bounds [OF assms(1)] wf_nco_bounds [OF assms(1)] assms(3)
  have "int_ok (cap S * 2)" "int_ok (nco S + 1)" "\<not> cap S < 0"
    by (simp_all add: int_ok_def INT_MAX_def INT_MIN_def)
  moreover from len have "take (nat (cap S)) (co S) = co S" by simp
  ultimately show ?thesis using assms(2) len by (simp add: coroutine_new_def Let_def)
qed

lemma new_full_overflow:
  assumes "schedule_wf S" and "cap S \<le> nco S" and "\<not> cap S < 2 ^ 30"
  shows "coroutine_new S f u = Inl Undefined_Behaviour"
proof -
  from assms(3) have "\<not> int_ok (cap S * 2)" by (simp add: int_ok_def INT_MAX_def)
  with assms(2) show ?thesis by (simp add: coroutine_new_def Let_def)
qed

lemma new_scan:
  assumes "schedule_wf S" and "nco S < cap S"
  shows "\<exists>j. 0 \<le> j \<and> j < cap S
           \<and> co S ! nat ((j + nco S) mod cap S) = None
           \<and> (\<forall>j'. 0 \<le> j' \<and> j' < j \<longrightarrow> co S ! nat ((j' + nco S) mod cap S) \<noteq> None)
           \<and> coroutine_new S f u =
               Inr ((j + nco S) mod cap S,
                    S\<lparr>co := (co S)[nat ((j + nco S) mod cap S) := Some (co_new f u)],
                      nco := nco S + 1\<rparr>)"
proof -
  from assms(1) have len: "int (length (co S)) = cap S" and n: "nco S = int (live (co S))"
    by (simp_all add: schedule_wf_def)
  from n have n0: "0 \<le> nco S" by simp
  from assms(2) len n have "live (co S) < length (co S)" by simp
  then have "\<exists>k<length (co S). co S ! k = None" by (rule live_less_empty_slot)
  from scan_first_slot [OF this len n0] obtain j where j: "0 \<le> j" "j < cap S"
    "co S ! nat ((j + nco S) mod cap S) = None"
    "\<forall>j'. 0 \<le> j' \<and> j' < j \<longrightarrow> co S ! nat ((j' + nco S) mod cap S) \<noteq> None"
    by blast
  from wf_cap_bounds [OF assms(1)] assms(2) have bound: "cap S + nco S \<le> INT_MAX"
    by (simp add: INT_MAX_def)
  have "scan (co S) (nco S) (cap S) 0 = Inr ((j + nco S) mod cap S)"
    by (rule scan_found [OF n0 len bound _ j(1) j(2) j(3) j(4)]) simp
  moreover from wf_cap_bounds [OF assms(1)] assms(2) n0 have "int_ok (nco S + 1)"
    by (simp add: int_ok_def INT_MAX_def INT_MIN_def)
  ultimately have "coroutine_new S f u =
      Inr ((j + nco S) mod cap S,
           S\<lparr>co := (co S)[nat ((j + nco S) mod cap S) := Some (co_new f u)], nco := nco S + 1\<rparr>)"
    using assms(2) by (simp add: coroutine_new_def Let_def)
  with j show ?thesis by blast
qed

lemma memcpy_Inr:
  "memcpy dst doff src soff n = Inr r \<Longrightarrow>
   0 \<le> n \<and> 0 \<le> doff \<and> 0 \<le> soff \<and> doff + n \<le> int (length dst) \<and> soff + n \<le> int (length src)
   \<and> r = take (nat doff) dst @ take (nat n) (drop (nat soff) src) @ drop (nat (doff + n)) dst"
  by (auto simp: memcpy_def split: if_splits)

lemma memcpy_ok:
  "0 \<le> n \<Longrightarrow> 0 \<le> doff \<Longrightarrow> 0 \<le> soff \<Longrightarrow> doff + n \<le> int (length dst) \<Longrightarrow>
   soff + n \<le> int (length src) \<Longrightarrow>
   memcpy dst doff src soff n =
     Inr (take (nat doff) dst @ take (nat n) (drop (nat soff) src) @ drop (nat (doff + n)) dst)"
  by (simp add: memcpy_def)

lemma memcpy_length:
  "memcpy dst doff src soff n = Inr r \<Longrightarrow> length r = length dst"
  by (drule memcpy_Inr) auto

lemma new_wf:
  assumes "schedule_wf S" and "coroutine_new S f u = Inr (cid, S')"
  shows "schedule_wf S'"
proof (cases "nco S < cap S")
  case True
  from new_scan [OF assms(1) True, of f u] assms(2) obtain j where
    j: "0 \<le> j" "j < cap S" "co S ! nat ((j + nco S) mod cap S) = None"
    and S': "S' = S\<lparr>co := (co S)[nat ((j + nco S) mod cap S) := Some (co_new f u)],
                     nco := nco S + 1\<rparr>"
    by auto
  from assms(1) have len: "int (length (co S)) = cap S" by (simp add: schedule_wf_def)
  from j have "0 \<le> (j + nco S) mod cap S" "(j + nco S) mod cap S < cap S" by simp_all
  with len have inb: "nat ((j + nco S) mod cap S) < length (co S)" by simp
  from live_update_fill [OF inb j(3)] slots_wf_update [of "co S" "Some (co_new f u)"]
    assms(1) show ?thesis
    by (simp add: S' schedule_wf_def co_wf_co_new)
next
  case False
  then have full: "cap S \<le> nco S" by simp
  have lt: "cap S < 2 ^ 30"
  proof (rule ccontr)
    assume "\<not> cap S < 2 ^ 30"
    from new_full_overflow [OF assms(1) full this, of f u] assms(2) show False by simp
  qed
  from new_full [OF assms(1) full lt, of f u] assms(2)
  have S': "S' = S\<lparr>co := (co S @ replicate (nat (cap S)) None)[nat (cap S) := Some (co_new f u)],
                    cap := cap S * 2, nco := nco S + 1\<rparr>"
    by simp
  from assms(1) have len: "int (length (co S)) = cap S" by (simp add: schedule_wf_def)
  then have l: "nat (cap S) = length (co S)" by (metis nat_int)
  from wf_cap_bounds(1) [OF assms(1)] have pos: "0 < nat (cap S)" by simp
  from pos have inb: "nat (cap S) < length (co S @ replicate (nat (cap S)) None)"
    by (simp add: l [symmetric])
  from pos have emp: "(co S @ replicate (nat (cap S)) None) ! nat (cap S) = None"
    by (simp add: nth_append l [symmetric])
  have sl: "slots_wf ((co S @ replicate (nat (cap S)) None)[nat (cap S) := Some (co_new f u)])"
    using assms(1) by (intro slots_wf_update slots_wf_grow) (simp_all add: schedule_wf_def co_wf_co_new)
  from live_update_fill [OF inb emp, of "co_new f u"] wf_cap_double [OF assms(1) lt] sl
    assms(1) len show ?thesis
    by (simp add: S' schedule_wf_def)
qed

lemma resume_wf:
  assumes "schedule_wf S" and "coroutine_resume S cid = Inr (t, S')"
  shows "schedule_wf S'"
proof -
  from assms(2) have rng: "0 \<le> cid" "cid < int (length (co S))"
    by (auto simp: coroutine_resume_def split: if_splits)
  then have inb: "nat cid < length (co S)" by simp
  show ?thesis
  proof (cases "co S ! nat cid")
    case None
    with assms show ?thesis by (auto simp: coroutine_resume_def split: if_splits)
  next
    case (Some C)
    from slots_wf_nth [OF _ inb Some] assms(1) have C: "co_wf C" by (simp add: schedule_wf_def)
    have sl: "slots_wf ((co S)[nat cid := Some (C\<lparr>status := COROUTINE_RUNNING\<rparr>)])"
      using assms(1) C by (intro slots_wf_update) (simp_all add: schedule_wf_def co_wf_status)
    note lv = live_update_keep [OF inb Some, of "C\<lparr>status := COROUTINE_RUNNING\<rparr>"]
    from assms Some sl lv show ?thesis
      by (auto simp: coroutine_resume_def schedule_wf_def memcpy_length
               split: if_splits co_status.splits sum.splits)
  qed
qed

lemma save_stack_Inr:
  assumes "save_stack C mem STACK_SIZE d = Inr (C', mem')" and "int (length mem) = STACK_SIZE"
  shows "0 \<le> d" and "d \<le> STACK_SIZE"
    and "mem' = (if d < STACK_SIZE then mem[nat d := 0] else mem)"
    and "co_size C' = STACK_SIZE - d"
    and "co_cap C' = (if co_cap C < STACK_SIZE - d then STACK_SIZE - d else co_cap C)"
    and "func C' = func C" and "ud C' = ud C" and "status C' = status C"
    and "int (length (co_stack C)) = co_cap C \<Longrightarrow>
         co_stack C' = drop (nat d) mem' @ drop (nat (STACK_SIZE - d)) (co_stack C)"
  using assms
  by (auto simp: save_stack_def Let_def dest!: memcpy_Inr split: if_splits sum.splits)

lemma yield_Inr:
  assumes "coroutine_yield S a d = Inr S'"
  shows "\<exists>C C' mem. 0 \<le> running S \<and> running S < int (length (co S)) \<and> 0 < a
           \<and> co S ! nat (running S) = Some C
           \<and> save_stack C (stack S) STACK_SIZE d = Inr (C', mem)
           \<and> S' = S\<lparr>stack := mem,
                     co := (co S)[nat (running S) := Some (C'\<lparr>status := COROUTINE_SUSPEND\<rparr>)],
                     running := - 1\<rparr>"
  using assms
  by (auto simp: coroutine_yield_def Let_def split: if_splits option.splits sum.splits)

lemma yield_wf:
  assumes "schedule_wf S" and "coroutine_yield S a d = Inr S'"
  shows "schedule_wf S'"
proof -
  from yield_Inr [OF assms(2)] obtain C C' mem where
    r: "0 \<le> running S" "running S < int (length (co S))"
    and C: "co S ! nat (running S) = Some C"
    and sv: "save_stack C (stack S) STACK_SIZE d = Inr (C', mem)"
    and S': "S' = S\<lparr>stack := mem,
                     co := (co S)[nat (running S) := Some (C'\<lparr>status := COROUTINE_SUSPEND\<rparr>)],
                     running := - 1\<rparr>"
    by blast
  from r have inb: "nat (running S) < length (co S)" by simp
  from assms(1) have len: "int (length (stack S)) = STACK_SIZE" by (simp add: schedule_wf_def)
  from slots_wf_nth [OF _ inb C] assms(1) have cw: "co_wf C" by (simp add: schedule_wf_def)
  note sv' = save_stack_Inr [OF sv len]
  from cw have cl: "int (length (co_stack C)) = co_cap C" by (simp add: co_wf_def)
  from sv'(1,2,4,5) cw have "0 \<le> co_size C'" "co_size C' \<le> STACK_SIZE" "co_size C' \<le> co_cap C'"
    by (auto simp: co_wf_def)
  moreover have "length mem = length (stack S)" using sv'(3) by simp
  moreover have "int (length (co_stack C')) = co_cap C'"
    using sv'(9) [OF cl] sv'(5) sv'(1,2) cl \<open>length mem = length (stack S)\<close> len
    by (auto split: if_splits)
  ultimately have "co_wf (C'\<lparr>status := COROUTINE_SUSPEND\<rparr>)" and lm: "int (length mem) = STACK_SIZE"
    using len by (simp_all add: co_wf_def)
  then have sl: "slots_wf ((co S)[nat (running S) := Some (C'\<lparr>status := COROUTINE_SUSPEND\<rparr>)])"
    using assms(1) by (intro slots_wf_update) (simp_all add: schedule_wf_def)
  note lv = live_update_keep [OF inb C, of "C'\<lparr>status := COROUTINE_SUSPEND\<rparr>"]
  from assms(1) sl lv lm show ?thesis by (simp add: S' schedule_wf_def)
qed

lemma mainfunc_Inr:
  assumes "mainfunc S cid = Inr S'"
  shows "\<exists>C. 0 \<le> cid \<and> cid < int (length (co S)) \<and> co S ! nat cid = Some C
           \<and> S' = S\<lparr>co := (co S)[nat cid := None], nco := nco S - 1, running := - 1\<rparr>"
  using assms by (auto simp: mainfunc_def split: if_splits option.splits)

lemma mainfunc_wf:
  assumes "schedule_wf S" and "mainfunc S cid = Inr S'"
  shows "schedule_wf S'"
proof -
  from mainfunc_Inr [OF assms(2)] obtain C where
    r: "0 \<le> cid" "cid < int (length (co S))" and C: "co S ! nat cid = Some C"
    and S': "S' = S\<lparr>co := (co S)[nat cid := None], nco := nco S - 1, running := - 1\<rparr>"
    by blast
  from r have inb: "nat cid < length (co S)" by simp
  have sl: "slots_wf ((co S)[nat cid := None])"
    using assms(1) by (intro slots_wf_update) (simp_all add: schedule_wf_def)
  from live_update_clear [OF inb C] have "int (live ((co S)[nat cid := None])) = int (live (co S)) - 1"
    by linarith
  with assms(1) sl show ?thesis by (simp add: S' schedule_wf_def)
qed

lemma mainfunc_ok:
  assumes "schedule_wf S" and "0 \<le> cid" and "cid < cap S" and "co S ! nat cid = Some C"
  shows "mainfunc S cid = Inr (S\<lparr>co := (co S)[nat cid := None], nco := nco S - 1, running := - 1\<rparr>)"
proof -
  from assms(1) have len: "int (length (co S)) = cap S" by (simp add: schedule_wf_def)
  from wf_nco_bounds [OF assms(1)] wf_cap_bounds [OF assms(1)] have "int_ok (nco S - 1)"
    by (simp add: int_ok_def INT_MIN_def INT_MAX_def)
  with assms len show ?thesis by (simp add: mainfunc_def)
qed

lemma exec_wf:
  assumes "schedule_wf S" and "exec e S = Inr S'"
  shows "schedule_wf S'"
proof (cases e)
  case (New f u)
  with assms show ?thesis by (auto split: sum.splits dest: new_wf)
next
  case (Resume cid)
  with assms show ?thesis by (auto split: sum.splits dest: resume_wf)
next
  case (Yield a d)
  with assms show ?thesis by (auto dest: yield_wf)
next
  case Finish
  with assms show ?thesis by (auto dest: mainfunc_wf)
next
  case (Status cid)
  with assms show ?thesis by (auto split: sum.splits)
next
  case Running
  with assms show ?thesis by (auto simp: Let_def)
next
  case (Store i b)
  with assms show ?thesis by (auto simp: schedule_wf_def split: if_splits)
qed

lemma run_wf:
  "schedule_wf S \<Longrightarrow> run es S = Inr S' \<Longrightarrow> schedule_wf S'"
proof (induction es arbitrary: S)
  case Nil
  then show ?case by simp
next
  case (Cons e es)
  from Cons.prems(2) obtain S1 where e: "exec e S = Inr S1" and r: "run es S1 = Inr S'"
    by (auto split: sum.splits)
  from exec_wf [OF Cons.prems(1) e] have "schedule_wf S1" .
  from Cons.IH [OF this r] show ?case .
qed

lemma open_wf: "int (length mem) = STACK_SIZE \<Longrightarrow> schedule_wf (coroutine_open mem)"
proof -
  assume "int (length mem) = STACK_SIZE"
  moreover have "\<exists>k\<in>{0..26::nat}. DEFAULT_COROUTINE = DEFAULT_COROUTINE * 2 ^ k"
    by (rule bexI [of _ 0]) simp_all
  moreover have "0 \<le> DEFAULT_COROUTINE" by (simp add: DEFAULT_COROUTINE_def)
  ultimately show ?thesis
    by (simp add: schedule_wf_def coroutine_open_def slots_wf_def)
qed

section \<open>The example schedulers are well formed\<close>

lemma cap16: "\<exists>k\<in>{0..26::nat}. (16::int) = DEFAULT_COROUTINE * 2 ^ k"
  by (rule bexI [of _ 0]) (simp_all add: DEFAULT_COROUTINE_def)

lemma sched_fresh_wf: "schedule_wf sched_fresh"
  unfolding sched_fresh_def by (rule open_wf) (simp add: mem0_def STACK_SIZE_def)

lemma sched_running_wf: "schedule_wf sched_running"
  using cap16
  by (simp add: schedule_wf_def sched_running_def slots_wf_def co_wf_def co_running_def
      STACK_SIZE_def)

section \<open>Calls that resume rejects, and the empty slot\<close>

text \<open>
  Claim C9. A call of resume while a coroutine is running (the running id is not \<open>- 1\<close>),
  or with an id outside \<open>[0, cap)\<close>, stops at one of the two assertions at the head of
  \<^verbatim>\<open>coroutine_resume\<close>: the result is the abort, and no scheduler is produced, so nothing was
  changed, queued or ignored.
\<close>

theorem resume_rejects_bad_call:
  "running S \<noteq> - 1 \<or> cid < 0 \<or> cap S \<le> cid \<Longrightarrow> coroutine_resume S cid = Inl Assert_Failed"
  by (auto simp: coroutine_resume_def)

theorem resume_rejects_bad_call_witness:
  "running sched_running \<noteq> - 1 \<and> coroutine_resume sched_running 1 = Inl Assert_Failed
   \<and> cap sched_fresh \<le> 16 \<and> coroutine_resume sched_fresh 16 = Inl Assert_Failed
   \<and> (- 1 :: int) < 0 \<and> coroutine_resume sched_fresh (- 1) = Inl Assert_Failed"
proof -
  have r: "running sched_running \<noteq> - 1" by (simp add: sched_running_def)
  then have a: "coroutine_resume sched_running 1 = Inl Assert_Failed"
    using resume_rejects_bad_call [of sched_running 1] by simp
  have c: "cap sched_fresh \<le> 16"
    by (simp add: sched_fresh_def coroutine_open_def DEFAULT_COROUTINE_def)
  then have b: "coroutine_resume sched_fresh 16 = Inl Assert_Failed"
    using resume_rejects_bad_call [of sched_fresh 16] by simp
  have d: "coroutine_resume sched_fresh (- 1) = Inl Assert_Failed"
    using resume_rejects_bad_call [of sched_fresh "- 1"] by simp
  from r a c b d show ?thesis by simp
qed

text \<open>
  Claim C10. With no coroutine running, resume on an id in \<open>[0, cap)\<close> whose slot is empty
  returns normally and leaves the whole scheduler (table, count, capacity, running id and
  shared stack) as it was.
\<close>

theorem resume_empty_slot_noop:
  "running S = - 1 \<Longrightarrow> 0 \<le> cid \<Longrightarrow> cid < cap S \<Longrightarrow> int (length (co S)) = cap S \<Longrightarrow>
   co S ! nat cid = None \<Longrightarrow> coroutine_resume S cid = Inr (Returned, S)"
  by (simp add: coroutine_resume_def)

theorem resume_empty_slot_noop_witness:
  "running sched_fresh = - 1 \<and> (0::int) \<le> 5 \<and> 5 < cap sched_fresh
   \<and> int (length (co sched_fresh)) = cap sched_fresh \<and> co sched_fresh ! nat 5 = None
   \<and> coroutine_resume sched_fresh 5 = Inr (Returned, sched_fresh)"
proof -
  have h: "running sched_fresh = - 1" "(0::int) \<le> 5" "5 < cap sched_fresh"
    "int (length (co sched_fresh)) = cap sched_fresh" "co sched_fresh ! nat 5 = None"
    by (simp_all add: sched_fresh_def coroutine_open_def DEFAULT_COROUTINE_def)
  from h resume_empty_slot_noop [OF h] show ?thesis by simp
qed

text \<open>
  Claim C4, as stated, fails: on a fresh scheduler slot 3 is empty, its status is
  \<^verbatim>\<open>COROUTINE_DEAD\<close>, and resume on it returns normally with the scheduler unchanged
  (\<^verbatim>\<open>if (C == NULL) return;\<close>).
\<close>

theorem resume_dead_counterexample:
  "schedule_wf sched_fresh \<and> running sched_fresh = - 1 \<and> (0::int) \<le> 3 \<and> 3 < cap sched_fresh
   \<and> coroutine_status sched_fresh 3 = Inr COROUTINE_DEAD
   \<and> coroutine_resume sched_fresh 3 = Inr (Returned, sched_fresh)"
  using sched_fresh_wf
  by (simp add: sched_fresh_def coroutine_open_def DEFAULT_COROUTINE_def coroutine_status_def
      coroutine_resume_def)

text \<open>
  Claim C4, amended. With no coroutine running and an id in \<open>[0, cap)\<close>: when the slot
  holds a coroutine whose status is neither Ready nor Suspended, resume aborts at
  \<^verbatim>\<open>assert(0)\<close>; when the slot is empty, resume returns normally and changes nothing.
\<close>

theorem resume_other_state_aborts:
  "running S = - 1 \<Longrightarrow> 0 \<le> cid \<Longrightarrow> cid < cap S \<Longrightarrow> int (length (co S)) = cap S \<Longrightarrow>
   (\<forall>C. co S ! nat cid = Some C \<and> status C \<noteq> COROUTINE_READY \<and> status C \<noteq> COROUTINE_SUSPEND
        \<longrightarrow> coroutine_resume S cid = Inl Assert_Failed)
   \<and> (co S ! nat cid = None \<longrightarrow> coroutine_resume S cid = Inr (Returned, S))"
  by (auto simp: coroutine_resume_def split: co_status.splits)

theorem resume_other_state_aborts_witness:
  "running (sched_running\<lparr>running := - 1\<rparr>) = - 1
   \<and> co (sched_running\<lparr>running := - 1\<rparr>) ! nat 0 = Some co_running
   \<and> status co_running = COROUTINE_RUNNING
   \<and> coroutine_resume (sched_running\<lparr>running := - 1\<rparr>) 0 = Inl Assert_Failed
   \<and> co (sched_running\<lparr>running := - 1\<rparr>) ! nat 1 = None
   \<and> coroutine_resume (sched_running\<lparr>running := - 1\<rparr>) 1
       = Inr (Returned, sched_running\<lparr>running := - 1\<rparr>)"
proof -
  let ?S = "sched_running\<lparr>running := - 1\<rparr>"
  have h: "running ?S = - 1" "int (length (co ?S)) = cap ?S"
    by (simp_all add: sched_running_def)
  have c0: "(0::int) \<le> 0" "0 < cap ?S" and c1: "(0::int) \<le> 1" "1 < cap ?S"
    by (simp_all add: sched_running_def)
  have s0: "co ?S ! nat 0 = Some co_running" "status co_running = COROUTINE_RUNNING"
    by (simp_all add: sched_running_def co_running_def)
  have s1: "co ?S ! nat 1 = None" by (simp add: sched_running_def)
  from resume_other_state_aborts [OF h(1) c0 h(2)] s0
  have a: "coroutine_resume ?S 0 = Inl Assert_Failed" by auto
  from resume_other_state_aborts [OF h(1) c1 h(2)] s1
  have b: "coroutine_resume ?S 1 = Inr (Returned, ?S)" by blast
  from h(1) s0 s1 a b show ?thesis by simp
qed

section \<open>Resume of a suspended coroutine, and yield\<close>

lemma sched_suspended_wf: "schedule_wf sched_suspended"
  using cap16
  by (simp add: schedule_wf_def sched_suspended_def slots_wf_def co_wf_def co_suspended_def
      STACK_SIZE_def mem0_def)

lemma resume_suspended_eq:
  assumes "schedule_wf S" and "running S = - 1" and "0 \<le> cid" and "cid < cap S"
    and "co S ! nat cid = Some C" and "status C = COROUTINE_SUSPEND"
  shows "coroutine_resume S cid =
    Inr (Switch_Saved,
         S\<lparr>stack := take (nat (STACK_SIZE - co_size C)) (stack S) @ take (nat (co_size C)) (co_stack C),
           running := cid,
           co := (co S)[nat cid := Some (C\<lparr>status := COROUTINE_RUNNING\<rparr>)]\<rparr>)"
proof -
  from assms(1) have len: "int (length (co S)) = cap S" and sl: "int (length (stack S)) = STACK_SIZE"
    by (simp_all add: schedule_wf_def)
  from assms(3,4) len have inb: "nat cid < length (co S)" by simp
  from slots_wf_nth [OF _ inb assms(5)] assms(1) have cw: "co_wf C" by (simp add: schedule_wf_def)
  then have b: "0 \<le> co_size C" "co_size C \<le> STACK_SIZE" "co_size C \<le> int (length (co_stack C))"
    by (simp_all add: co_wf_def)
  with sl have "memcpy (stack S) (STACK_SIZE - co_size C) (co_stack C) 0 (co_size C) =
      Inr (take (nat (STACK_SIZE - co_size C)) (stack S) @ take (nat (co_size C)) (co_stack C))"
    by (simp add: memcpy_def)
  with assms len show ?thesis by (simp add: coroutine_resume_def)
qed

text \<open>
  Claim C2. With no coroutine running, resume on an id whose slot holds a Suspended
  coroutine with saved size \<open>s\<close> copies the first \<open>s\<close> bytes of its private buffer into the
  shared stack at the offsets \<open>STACK_SIZE - s\<close>, ..., \<open>STACK_SIZE - 1\<close> (flush against the top;
  the bytes below are untouched), sets the status of the coroutine to Running and the
  running id to the id, and then switches into the saved context.
\<close>

theorem resume_suspended:
  assumes "schedule_wf S" and "running S = - 1" and "0 \<le> cid" and "cid < cap S"
    and "co S ! nat cid = Some C" and "status C = COROUTINE_SUSPEND"
  shows "\<exists>S'. coroutine_resume S cid = Inr (Switch_Saved, S')
      \<and> int (length (stack S')) = STACK_SIZE
      \<and> (\<forall>i. 0 \<le> i \<and> i < co_size C \<longrightarrow>
            stack S' ! nat (STACK_SIZE - co_size C + i) = co_stack C ! nat i)
      \<and> (\<forall>i. 0 \<le> i \<and> i < STACK_SIZE - co_size C \<longrightarrow> stack S' ! nat i = stack S ! nat i)
      \<and> co S' = (co S)[nat cid := Some (C\<lparr>status := COROUTINE_RUNNING\<rparr>)]
      \<and> running S' = cid \<and> nco S' = nco S \<and> cap S' = cap S"
proof -
  let ?s = "co_size C"
  let ?mem = "take (nat (STACK_SIZE - ?s)) (stack S) @ take (nat ?s) (co_stack C)"
  from assms(1) have len: "int (length (co S)) = cap S" and sl: "int (length (stack S)) = STACK_SIZE"
    by (simp_all add: schedule_wf_def)
  from assms(3,4) len have inb: "nat cid < length (co S)" by simp
  from slots_wf_nth [OF _ inb assms(5)] assms(1) have cw: "co_wf C" by (simp add: schedule_wf_def)
  then have b: "0 \<le> ?s" "?s \<le> STACK_SIZE" "?s \<le> int (length (co_stack C))"
    by (simp_all add: co_wf_def)
  from b sl have l1: "length (take (nat (STACK_SIZE - ?s)) (stack S)) = nat (STACK_SIZE - ?s)"
    by simp
  from b sl have lm: "int (length ?mem) = STACK_SIZE" by simp
  have hi: "\<forall>i. 0 \<le> i \<and> i < ?s \<longrightarrow> ?mem ! nat (STACK_SIZE - ?s + i) = co_stack C ! nat i"
  proof (intro allI impI)
    fix i :: int
    assume i: "0 \<le> i \<and> i < ?s"
    with b have "nat (STACK_SIZE - ?s + i) = nat (STACK_SIZE - ?s) + nat i"
      by (simp add: nat_add_distrib)
    with i b l1 show "?mem ! nat (STACK_SIZE - ?s + i) = co_stack C ! nat i"
      by (simp add: nth_append)
  qed
  have lo: "\<forall>i. 0 \<le> i \<and> i < STACK_SIZE - ?s \<longrightarrow> ?mem ! nat i = stack S ! nat i"
  proof (intro allI impI)
    fix i :: int
    assume i: "0 \<le> i \<and> i < STACK_SIZE - ?s"
    with l1 show "?mem ! nat i = stack S ! nat i" by (simp add: nth_append)
  qed
  from resume_suspended_eq [OF assms] lm hi lo show ?thesis by simp
qed

theorem resume_suspended_witness:
  "schedule_wf sched_suspended \<and> running sched_suspended = - 1
   \<and> co sched_suspended ! nat 0 = Some co_suspended \<and> status co_suspended = COROUTINE_SUSPEND
   \<and> co_size co_suspended = 3
   \<and> coroutine_resume sched_suspended 0 =
       Inr (Switch_Saved,
            sched_suspended\<lparr>stack := replicate 1048573 0 @ [1, 2, 3], running := 0,
              co := Some (co_suspended\<lparr>status := COROUTINE_RUNNING\<rparr>) # replicate 15 None\<rparr>)"
proof -
  have h: "running sched_suspended = - 1" "(0::int) \<le> 0" "0 < cap sched_suspended"
    "co sched_suspended ! nat 0 = Some co_suspended" "status co_suspended = COROUTINE_SUSPEND"
    by (simp_all add: sched_suspended_def co_suspended_def)
  from resume_suspended [OF sched_suspended_wf h] obtain S' where
    S': "coroutine_resume sched_suspended 0 = Inr (Switch_Saved, S')" by blast
  have "coroutine_resume sched_suspended 0 =
       Inr (Switch_Saved,
            sched_suspended\<lparr>stack := replicate 1048573 0 @ [1, 2, 3], running := 0,
              co := Some (co_suspended\<lparr>status := COROUTINE_RUNNING\<rparr>) # replicate 15 None\<rparr>)"
    by (simp add: coroutine_resume_def sched_suspended_def co_suspended_def memcpy_def
        STACK_SIZE_def mem0_def)
  with S' h sched_suspended_wf show ?thesis by (simp add: co_suspended_def)
qed

lemma save_stack_ok:
  assumes "int (length mem) = STACK_SIZE" and "0 \<le> d" and "d \<le> STACK_SIZE"
    and "int (length (co_stack C)) = co_cap C"
  shows "\<exists>C' mem'. save_stack C mem STACK_SIZE d = Inr (C', mem')"
  using assms by (auto simp: save_stack_def Let_def memcpy_def)

text \<open>
  Claim C3. A yield called while a coroutine is running, from frames inside the shared
  stack, with \<open>n = STACK_SIZE - addr_dummy\<close> the bytes from the current frame to the top:
  it succeeds; the first \<open>n\<close> bytes of the private buffer are the \<open>n\<close> bytes at the top of
  the shared stack, which stays as it is apart from the local \<^verbatim>\<open>dummy\<close> itself; the size is
  \<open>n\<close>; the buffer gets the capacity \<open>n\<close> when its capacity was less than \<open>n\<close> and otherwise
  keeps its capacity and its bytes beyond \<open>n\<close>, so the capacity never shrinks; the status
  becomes Suspended and the running id \<open>- 1\<close>.
\<close>

theorem yield_saves:
  assumes "schedule_wf S" and "0 \<le> running S" and "running S < cap S"
    and "co S ! nat (running S) = Some C"
    and "0 < addr_C" and "0 \<le> addr_dummy" and "addr_dummy \<le> STACK_SIZE"
  shows "\<exists>S' C'. coroutine_yield S addr_C addr_dummy = Inr S'
      \<and> co S' = (co S)[nat (running S) := Some C']
      \<and> stack S' = (if addr_dummy < STACK_SIZE then (stack S)[nat addr_dummy := 0] else stack S)
      \<and> co_size C' = STACK_SIZE - addr_dummy
      \<and> take (nat (STACK_SIZE - addr_dummy)) (co_stack C') = drop (nat addr_dummy) (stack S')
      \<and> int (length (drop (nat addr_dummy) (stack S'))) = STACK_SIZE - addr_dummy
      \<and> (co_cap C < STACK_SIZE - addr_dummy \<longrightarrow> co_cap C' = STACK_SIZE - addr_dummy)
      \<and> (\<not> co_cap C < STACK_SIZE - addr_dummy \<longrightarrow>
            co_cap C' = co_cap C
            \<and> drop (nat (STACK_SIZE - addr_dummy)) (co_stack C')
                = drop (nat (STACK_SIZE - addr_dummy)) (co_stack C))
      \<and> co_cap C \<le> co_cap C' \<and> int (length (co_stack C')) = co_cap C'
      \<and> func C' = func C \<and> ud C' = ud C
      \<and> status C' = COROUTINE_SUSPEND
      \<and> running S' = - 1 \<and> nco S' = nco S \<and> cap S' = cap S"
proof -
  let ?n = "STACK_SIZE - addr_dummy"
  from assms(1) have len: "int (length (co S)) = cap S" and sl: "int (length (stack S)) = STACK_SIZE"
    by (simp_all add: schedule_wf_def)
  from assms(2,3) len have inb: "nat (running S) < length (co S)" by simp
  from slots_wf_nth [OF _ inb assms(4)] assms(1) have cw: "co_wf C" by (simp add: schedule_wf_def)
  then have cl: "int (length (co_stack C)) = co_cap C" by (simp add: co_wf_def)
  from save_stack_ok [OF sl assms(6,7) cl] obtain C' mem' where
    sv: "save_stack C (stack S) STACK_SIZE addr_dummy = Inr (C', mem')" by blast
  note p = save_stack_Inr [OF sv sl]
  let ?S' = "S\<lparr>stack := mem',
               co := (co S)[nat (running S) := Some (C'\<lparr>status := COROUTINE_SUSPEND\<rparr>)],
               running := - 1\<rparr>"
  from assms(2-5) len sv have y: "coroutine_yield S addr_C addr_dummy = Inr ?S'"
    by (simp add: coroutine_yield_def Let_def)
  from p(3) sl have lm: "int (length mem') = STACK_SIZE" by simp
  with assms(6,7) have ld: "int (length (drop (nat addr_dummy) mem')) = ?n" by simp
  then have ld': "length (drop (nat addr_dummy) mem') = nat ?n" by linarith
  from p(9) [OF cl] have cs: "co_stack C' = drop (nat addr_dummy) mem' @ drop (nat ?n) (co_stack C)" .
  from cs ld' have tk: "take (nat ?n) (co_stack C') = drop (nat addr_dummy) mem'" by simp
  from cs ld' have dr: "drop (nat ?n) (co_stack C') = drop (nat ?n) (co_stack C)" by simp
  from cs ld' cl assms(6,7) have lc: "int (length (co_stack C')) = co_cap C'"
    by (simp add: p(5))
  have "coroutine_yield S addr_C addr_dummy = Inr ?S'
      \<and> co ?S' = (co S)[nat (running S) := Some (C'\<lparr>status := COROUTINE_SUSPEND\<rparr>)]
      \<and> stack ?S' = (if addr_dummy < STACK_SIZE then (stack S)[nat addr_dummy := 0] else stack S)
      \<and> co_size (C'\<lparr>status := COROUTINE_SUSPEND\<rparr>) = ?n
      \<and> take (nat ?n) (co_stack (C'\<lparr>status := COROUTINE_SUSPEND\<rparr>)) = drop (nat addr_dummy) (stack ?S')
      \<and> int (length (drop (nat addr_dummy) (stack ?S'))) = ?n
      \<and> (co_cap C < ?n \<longrightarrow> co_cap (C'\<lparr>status := COROUTINE_SUSPEND\<rparr>) = ?n)
      \<and> (\<not> co_cap C < ?n \<longrightarrow>
            co_cap (C'\<lparr>status := COROUTINE_SUSPEND\<rparr>) = co_cap C
            \<and> drop (nat ?n) (co_stack (C'\<lparr>status := COROUTINE_SUSPEND\<rparr>)) = drop (nat ?n) (co_stack C))
      \<and> co_cap C \<le> co_cap (C'\<lparr>status := COROUTINE_SUSPEND\<rparr>)
      \<and> int (length (co_stack (C'\<lparr>status := COROUTINE_SUSPEND\<rparr>))) = co_cap (C'\<lparr>status := COROUTINE_SUSPEND\<rparr>)
      \<and> func (C'\<lparr>status := COROUTINE_SUSPEND\<rparr>) = func C \<and> ud (C'\<lparr>status := COROUTINE_SUSPEND\<rparr>) = ud C
      \<and> status (C'\<lparr>status := COROUTINE_SUSPEND\<rparr>) = COROUTINE_SUSPEND
      \<and> running ?S' = - 1 \<and> nco ?S' = nco S \<and> cap ?S' = cap S"
    using y p(3,4,5,6,7) tk ld dr lc by simp
  then show ?thesis by blast
qed

theorem yield_saves_witness:
  "schedule_wf sched_running \<and> 0 \<le> running sched_running \<and> running sched_running < cap sched_running
   \<and> co sched_running ! nat (running sched_running) = Some co_running
   \<and> (0::int) < 1048574 \<and> (0::int) \<le> 1048573 \<and> 1048573 \<le> STACK_SIZE
   \<and> coroutine_yield sched_running 1048574 1048573 =
       Inr (sched_running\<lparr>stack := replicate 1048573 0 @ [0, 8, 9],
              co := Some (co_running\<lparr>co_cap := 3, co_size := 3, co_stack := [0, 8, 9],
                            status := COROUTINE_SUSPEND\<rparr>) # replicate 15 None,
              running := - 1\<rparr>)"
proof -
  have h: "0 \<le> running sched_running" "running sched_running < cap sched_running"
    "co sched_running ! nat (running sched_running) = Some co_running"
    "(0::int) < 1048574" "(0::int) \<le> 1048573" "1048573 \<le> STACK_SIZE"
    by (simp_all add: sched_running_def STACK_SIZE_def)
  from yield_saves [OF sched_running_wf h] obtain S' where
    "coroutine_yield sched_running 1048574 1048573 = Inr S'" by blast
  moreover have "coroutine_yield sched_running 1048574 1048573 =
       Inr (sched_running\<lparr>stack := replicate 1048573 0 @ [0, 8, 9],
              co := Some (co_running\<lparr>co_cap := 3, co_size := 3, co_stack := [0, 8, 9],
                            status := COROUTINE_SUSPEND\<rparr>) # replicate 15 None,
              running := - 1\<rparr>)"
    by (simp add: coroutine_yield_def sched_running_def co_running_def save_stack_def memcpy_def
        STACK_SIZE_def Let_def list_update_append)
  ultimately show ?thesis using h sched_running_wf by simp
qed

section \<open>Registration\<close>

lemma sched_sparse_wf: "schedule_wf sched_sparse"
  using cap16
  by (simp add: schedule_wf_def sched_sparse_def slots_wf_def co_wf_co_new STACK_SIZE_def mem0_def)

lemma sched_full_wf: "schedule_wf sched_full"
  using cap16
  by (simp add: schedule_wf_def sched_full_def slots_wf_def co_wf_co_new STACK_SIZE_def mem0_def)

lemma sched_huge_wf: "schedule_wf sched_huge"
proof -
  have "\<exists>k\<in>{0..26::nat}. (1073741824::int) = DEFAULT_COROUTINE * 2 ^ k"
    by (rule bexI [of _ 26]) (simp_all add: DEFAULT_COROUTINE_def)
  then show ?thesis
    by (simp add: schedule_wf_def sched_huge_def slots_wf_def co_wf_co_new STACK_SIZE_def mem0_def)
qed

lemma new_Inr:
  assumes "schedule_wf S" and "coroutine_new S f u = Inr (cid, S')"
  shows "0 \<le> cid" and "cid < cap S \<longrightarrow> co S ! nat cid = None"
    and "cid < cap S'" and "co S' ! nat cid = Some (co_new f u)"
    and "\<forall>k. 0 \<le> k \<and> k < cap S \<and> k \<noteq> cid \<longrightarrow> co S' ! nat k = co S ! nat k"
proof -
  from assms(1) have len: "int (length (co S)) = cap S" by (simp add: schedule_wf_def)
  then have l: "length (co S) = nat (cap S)" by linarith
  note cb = wf_cap_bounds [OF assms(1)]
  have "0 \<le> cid \<and> (cid < cap S \<longrightarrow> co S ! nat cid = None) \<and> cid < cap S'
      \<and> co S' ! nat cid = Some (co_new f u)
      \<and> (\<forall>k. 0 \<le> k \<and> k < cap S \<and> k \<noteq> cid \<longrightarrow> co S' ! nat k = co S ! nat k)"
  proof (cases "nco S < cap S")
    case True
    from new_scan [OF assms(1) True, of f u] assms(2) obtain j where
      j: "0 \<le> j" "j < cap S" "co S ! nat cid = None" and cid: "cid = (j + nco S) mod cap S"
      and S': "S' = S\<lparr>co := (co S)[nat cid := Some (co_new f u)], nco := nco S + 1\<rparr>"
      by auto
    from j cid have r: "0 \<le> cid" "cid < cap S" by simp_all
    with l have "nat cid < length (co S)" by simp
    moreover have "\<forall>k. 0 \<le> k \<and> k < cap S \<and> k \<noteq> cid \<longrightarrow> (co S)[nat cid := Some (co_new f u)] ! nat k = co S ! nat k"
      using r by (auto simp: nth_list_update)
    ultimately show ?thesis using r j(3) by (simp add: S')
  next
    case False
    then have full: "cap S \<le> nco S" by simp
    have lt: "cap S < 2 ^ 30"
    proof (rule ccontr)
      assume "\<not> cap S < 2 ^ 30"
      from new_full_overflow [OF assms(1) full this, of f u] assms(2) show False by simp
    qed
    from new_full [OF assms(1) full lt, of f u] assms(2)
    have cid: "cid = cap S"
      and S': "S' = S\<lparr>co := (co S @ replicate (nat (cap S)) None)[nat (cap S) := Some (co_new f u)],
                      cap := cap S * 2, nco := nco S + 1\<rparr>"
      by simp_all
    from cb have pos: "0 < nat (cap S)" by simp
    then have "(co S @ replicate (nat (cap S)) None)[nat (cap S) := Some (co_new f u)] ! nat (cap S)
        = Some (co_new f u)"
      by (simp add: l)
    moreover have "\<forall>k. 0 \<le> k \<and> k < cap S \<and> k \<noteq> cid \<longrightarrow>
        (co S @ replicate (nat (cap S)) None)[nat (cap S) := Some (co_new f u)] ! nat k = co S ! nat k"
      using l by (auto simp: nth_list_update nth_append)
    ultimately show ?thesis using cb by (simp add: S' cid)
  qed
  then show "0 \<le> cid" and "cid < cap S \<longrightarrow> co S ! nat cid = None"
    and "cid < cap S'" and "co S' ! nat cid = Some (co_new f u)"
    and "\<forall>k. 0 \<le> k \<and> k < cap S \<and> k \<noteq> cid \<longrightarrow> co S' ! nat k = co S ! nat k"
    by blast+
qed

text \<open>
  Claim C6. A register call on a table that is not full succeeds; the id it returns is
  \<open>(i + nco) mod cap\<close> for the first \<open>i = 0, 1, ...\<close> whose slot is empty, and that slot then
  holds the new coroutine. And for every register call that returns (scan or growth): the
  id is a valid index of the new table, it was not the id of a live coroutine (if it was an
  index of the old table its status there was Dead), it now holds the new coroutine, and
  every other slot of the old table is unchanged, so each live coroutine keeps an id of
  its own.
\<close>

theorem register_scan:
  assumes "schedule_wf S"
  shows "(nco S < cap S \<longrightarrow>
           (\<exists>i. 0 \<le> i \<and> i < cap S
              \<and> co S ! nat ((i + nco S) mod cap S) = None
              \<and> (\<forall>j. 0 \<le> j \<and> j < i \<longrightarrow> co S ! nat ((j + nco S) mod cap S) \<noteq> None)
              \<and> coroutine_new S f u =
                  Inr ((i + nco S) mod cap S,
                       S\<lparr>co := (co S)[nat ((i + nco S) mod cap S) := Some (co_new f u)],
                         nco := nco S + 1\<rparr>)))
       \<and> (\<forall>cid S'. coroutine_new S f u = Inr (cid, S') \<longrightarrow>
            0 \<le> cid \<and> cid < cap S'
            \<and> (cid < cap S \<longrightarrow> coroutine_status S cid = Inr COROUTINE_DEAD)
            \<and> co S' ! nat cid = Some (co_new f u)
            \<and> (\<forall>k. 0 \<le> k \<and> k < cap S \<and> k \<noteq> cid \<longrightarrow> co S' ! nat k = co S ! nat k)
            \<and> (\<forall>k. 0 \<le> k \<and> k < cap S \<and> co S ! nat k \<noteq> None \<longrightarrow> k \<noteq> cid))"
proof (intro conjI impI allI)
  assume "nco S < cap S"
  from new_scan [OF assms this, of f u]
  show "\<exists>i. 0 \<le> i \<and> i < cap S
              \<and> co S ! nat ((i + nco S) mod cap S) = None
              \<and> (\<forall>j. 0 \<le> j \<and> j < i \<longrightarrow> co S ! nat ((j + nco S) mod cap S) \<noteq> None)
              \<and> coroutine_new S f u =
                  Inr ((i + nco S) mod cap S,
                       S\<lparr>co := (co S)[nat ((i + nco S) mod cap S) := Some (co_new f u)],
                         nco := nco S + 1\<rparr>)" .
next
  fix cid S'
  assume n: "coroutine_new S f u = Inr (cid, S')"
  note p = new_Inr [OF assms n]
  from assms have len: "int (length (co S)) = cap S" by (simp add: schedule_wf_def)
  show "0 \<le> cid" by (rule p(1))
  show "cid < cap S'" by (rule p(3))
  show "co S' ! nat cid = Some (co_new f u)" by (rule p(4))
  show "coroutine_status S cid = Inr COROUTINE_DEAD" if "cid < cap S"
    using that p(1,2) len by (simp add: coroutine_status_def)
  show "co S' ! nat k = co S ! nat k" if "0 \<le> k \<and> k < cap S \<and> k \<noteq> cid" for k
    using that p(5) by blast
  show "k \<noteq> cid" if "0 \<le> k \<and> k < cap S \<and> co S ! nat k \<noteq> None" for k
    using that p(2) by auto
qed

theorem register_scan_witness:
  "schedule_wf sched_sparse \<and> nco sched_sparse < cap sched_sparse
   \<and> coroutine_new sched_sparse 5 6 =
       Inr (2, sched_sparse\<lparr>co := (co sched_sparse)[2 := Some (co_new 5 6)],
                 nco := 2\<rparr>)
   \<and> (1 + nco sched_sparse) mod cap sched_sparse = 2
   \<and> co sched_sparse ! nat ((0 + nco sched_sparse) mod cap sched_sparse) \<noteq> None
   \<and> coroutine_status sched_sparse 2 = Inr COROUTINE_DEAD"
proof -
  have lt: "nco sched_sparse < cap sched_sparse" by (simp add: sched_sparse_def)
  have ev: "coroutine_new sched_sparse 5 6 =
       Inr (2, sched_sparse\<lparr>co := (co sched_sparse)[2 := Some (co_new 5 6)],
                 nco := 2\<rparr>)"
    by (simp add: coroutine_new_def sched_sparse_def scan.simps int_ok_def INT_MAX_def INT_MIN_def
        signed_modulo_int_def Let_def)
  from register_scan [OF sched_sparse_wf, of 5 6] ev
  have "coroutine_status sched_sparse 2 = Inr COROUTINE_DEAD"
    by (simp add: sched_sparse_def)
  with lt ev sched_sparse_wf show ?thesis
    by (simp add: sched_sparse_def)
qed

lemma new_after_prefix:
  assumes "k < 16"
  shows "coroutine_new
           ((coroutine_open mem)\<lparr>co := replicate k (Some (co_new f u)) @ replicate (16 - k) None,
                                  nco := int k\<rparr>) f u
         = Inr (int k,
             (coroutine_open mem)\<lparr>co := replicate (Suc k) (Some (co_new f u))
                                          @ replicate (16 - Suc k) None,
                                   nco := int (Suc k)\<rparr>)"
proof -
  let ?c = "Some (co_new f u)"
  let ?tab = "replicate k ?c @ replicate (16 - k) (None :: ('a, 'b) coroutine option)"
  from assms have len: "int (length ?tab) = 16" by simp
  have emp: "?tab ! nat ((0 + int k) mod 16) = None" using assms by (simp add: nth_append)
  have "scan ?tab (int k) 16 0 = Inr ((0 + int k) mod 16)"
    by (rule scan_found [OF _ len _ _ _ _ emp]) (use assms in \<open>simp_all add: INT_MAX_def\<close>)
  with assms have sc: "scan ?tab (int k) 16 0 = Inr (int k)" by simp
  from assms obtain m where m: "16 - k = Suc m" "16 - Suc k = m"
    by (cases "16 - k") simp_all
  have "?tab[k := ?c] = replicate k ?c @ (replicate (16 - k) None)[0 := ?c]"
    by (simp add: list_update_append)
  also have "\<dots> = replicate k ?c @ ?c # replicate m None" by (simp add: m)
  also have "\<dots> = replicate (Suc k) ?c @ replicate (16 - Suc k) None"
    by (use m in \<open>simp add: replicate_app_Cons_same\<close>)
  finally have up: "?tab[k := ?c] = replicate (Suc k) ?c @ replicate (16 - Suc k) None" .
  from assms have ok: "int_ok (int k + 1)" by (simp add: int_ok_def INT_MAX_def INT_MIN_def)
  from assms sc up ok show ?thesis
    by (simp add: coroutine_new_def coroutine_open_def DEFAULT_COROUTINE_def Let_def)
qed

lemma run_news:
  "j + k \<le> 16 \<Longrightarrow>
   run (replicate k (New f u))
     ((coroutine_open mem)\<lparr>co := replicate j (Some (co_new f u)) @ replicate (16 - j) None,
                           nco := int j\<rparr>)
   = Inr ((coroutine_open mem)\<lparr>co := replicate (j + k) (Some (co_new f u))
                                        @ replicate (16 - (j + k)) None,
                                 nco := int (j + k)\<rparr>)"
proof (induction k arbitrary: j)
  case 0
  then show ?case by simp
next
  case (Suc k)
  then have j: "j < 16" and le: "Suc j + k \<le> 16" by simp_all
  from new_after_prefix [OF j, where mem = mem and f = f and u = u] Suc.IH [OF le]
  show ?case by simp
qed

lemma run_16_news:
  "run (replicate 16 (New f u)) (coroutine_open mem)
   = Inr ((coroutine_open mem)\<lparr>co := replicate 16 (Some (co_new f u)), nco := 16\<rparr>)"
proof -
  have "(coroutine_open mem :: ('a, 'b) schedule)
      = (coroutine_open mem)\<lparr>co := replicate 0 (Some (co_new f u)) @ replicate (16 - 0) None,
                            nco := int 0\<rparr>"
    by (simp add: coroutine_open_def DEFAULT_COROUTINE_def)
  with run_news [where j = 0 and k = 16 and f = f and u = u and mem = mem] show ?thesis by simp
qed

text \<open>
  Claim C7, as stated, fails for one table: when the full table has \<open>2 ^ 30\<close> slots,
  \<^verbatim>\<open>S->cap * 2\<close> leaves the range of \<^verbatim>\<open>int\<close>, and the call has no defined result.
\<close>

theorem register_full_counterexample:
  "schedule_wf sched_huge \<and> nco sched_huge = cap sched_huge
   \<and> coroutine_new sched_huge 0 0 = Inl Undefined_Behaviour"
  using sched_huge_wf
  by (simp add: sched_huge_def coroutine_new_def int_ok_def INT_MAX_def Let_def)

text \<open>
  Claim C7, amended. A register call on a full table of fewer than \<open>2 ^ 30\<close> slots
  succeeds and returns the old capacity as id; the capacity and the table length double,
  the new coroutine is in the first new slot, the other new slots are empty and the old
  slots are unchanged. In particular, after 16 registrations on a scheduler just opened
  the capacity is still 16, and the 17th returns id 16 and makes the capacity 32.
\<close>

theorem register_full:
  assumes "schedule_wf S" and "nco S = cap S" and "cap S < 2 ^ 30"
  shows "(\<exists>S'. coroutine_new S f u = Inr (cap S, S')
            \<and> cap S' = 2 * cap S \<and> int (length (co S')) = 2 * cap S \<and> nco S' = nco S + 1
            \<and> co S' ! nat (cap S) = Some (co_new f u)
            \<and> (\<forall>k. cap S < k \<and> k < 2 * cap S \<longrightarrow> co S' ! nat k = None)
            \<and> (\<forall>k. 0 \<le> k \<and> k < cap S \<longrightarrow> co S' ! nat k = co S ! nat k)
            \<and> stack S' = stack S \<and> running S' = running S)
       \<and> (\<exists>S16 S17. run (replicate 16 (New g v)) (coroutine_open mem) = Inr S16
            \<and> cap S16 = 16 \<and> nco S16 = 16
            \<and> coroutine_new S16 g v = Inr (16, S17) \<and> cap S17 = 32 \<and> nco S17 = 17)"
proof
  let ?tab = "(co S @ replicate (nat (cap S)) None)[nat (cap S) := Some (co_new f u)]"
  let ?S' = "S\<lparr>co := ?tab, cap := cap S * 2, nco := nco S + 1\<rparr>"
  from assms(1) have len: "int (length (co S)) = cap S" by (simp add: schedule_wf_def)
  then have l: "length (co S) = nat (cap S)" by linarith
  from wf_cap_bounds [OF assms(1)] have pos: "0 < nat (cap S)" by simp
  from assms(2) have "cap S \<le> nco S" by simp
  from new_full [OF assms(1) this assms(3), of f u]
  have n: "coroutine_new S f u = Inr (cap S, ?S')" .
  have a: "?tab ! nat (cap S) = Some (co_new f u)" using pos by (simp add: l)
  have b: "\<forall>k. cap S < k \<and> k < 2 * cap S \<longrightarrow> ?tab ! nat k = None"
    using l by (auto simp: nth_list_update nth_append)
  have c: "\<forall>k. 0 \<le> k \<and> k < cap S \<longrightarrow> ?tab ! nat k = co S ! nat k"
    using l by (auto simp: nth_list_update nth_append)
  have d: "int (length ?tab) = 2 * cap S" using len by simp
  from n a b c d show "\<exists>S'. coroutine_new S f u = Inr (cap S, S')
            \<and> cap S' = 2 * cap S \<and> int (length (co S')) = 2 * cap S \<and> nco S' = nco S + 1
            \<and> co S' ! nat (cap S) = Some (co_new f u)
            \<and> (\<forall>k. cap S < k \<and> k < 2 * cap S \<longrightarrow> co S' ! nat k = None)
            \<and> (\<forall>k. 0 \<le> k \<and> k < cap S \<longrightarrow> co S' ! nat k = co S ! nat k)
            \<and> stack S' = stack S \<and> running S' = running S"
    by simp
next
  let ?S16 = "(coroutine_open mem)\<lparr>co := replicate 16 (Some (co_new g v)), nco := 16\<rparr>"
  have "\<exists>S17. coroutine_new ?S16 g v = Inr (16, S17) \<and> cap S17 = 32 \<and> nco S17 = 17"
    by (simp add: coroutine_new_def coroutine_open_def DEFAULT_COROUTINE_def int_ok_def
        INT_MAX_def INT_MIN_def Let_def)
  moreover have "cap ?S16 = 16 \<and> nco ?S16 = 16"
    by (simp add: coroutine_open_def DEFAULT_COROUTINE_def)
  ultimately show "\<exists>S16 S17. run (replicate 16 (New g v)) (coroutine_open mem) = Inr S16
            \<and> cap S16 = 16 \<and> nco S16 = 16
            \<and> coroutine_new S16 g v = Inr (16, S17) \<and> cap S17 = 32 \<and> nco S17 = 17"
    using run_16_news [where f = g and u = v and mem = mem] by blast
qed

theorem register_full_witness:
  "schedule_wf sched_full \<and> nco sched_full = cap sched_full \<and> cap sched_full < 2 ^ 30
   \<and> coroutine_new sched_full 5 6 =
       Inr (16, sched_full\<lparr>co := replicate 16 (Some (co_new 0 0)) @ Some (co_new 5 6) # replicate 15 None,
                  cap := 32, nco := 17\<rparr>)"
proof -
  have h: "nco sched_full = cap sched_full" "cap sched_full < 2 ^ 30"
    by (simp_all add: sched_full_def)
  from register_full [OF sched_full_wf h, where f = 5 and u = 6 and g = "0::nat" and v = "0::nat"
      and mem = "[]"]
  obtain S' where
    S': "coroutine_new sched_full 5 6 = Inr (cap sched_full, S')" by blast
  have r: "(replicate 16 (Some (co_new 0 0)) @ replicate 16 None)[16 := Some (co_new (5::nat) (6::nat))]
      = replicate 16 (Some (co_new 0 0)) @ Some (co_new 5 6) # replicate 15 None"
    by (simp add: list_update_append numeral_eq_Suc)
  have "coroutine_new sched_full 5 6 =
       Inr (16, sched_full\<lparr>co := replicate 16 (Some (co_new 0 0)) @ Some (co_new 5 6) # replicate 15 None,
                  cap := 32, nco := 17\<rparr>)"
    using r by (simp add: coroutine_new_def sched_full_def int_ok_def INT_MAX_def INT_MIN_def Let_def)
  with S' h sched_full_wf show ?thesis by simp
qed

section \<open>The running id\<close>

lemma scan_Inr:
  "scan tab n c i = Inr k \<Longrightarrow> 0 \<le> k \<and> k < int (length tab) \<and> tab ! nat k = None"
proof (induction tab n c i rule: scan.induct)
  case (1 tab n c i)
  let ?x = "(i + n) smod c"
  show ?case
  proof (cases "i < c \<and> int_ok (i + n) \<and> \<not> (?x < 0 \<or> int (length tab) \<le> ?x)")
    case False
    with "1.prems" show ?thesis
      by (subst (asm) scan.simps) (auto simp: Let_def split: if_splits)
  next
    case ok: True
    show ?thesis
    proof (cases "tab ! nat ?x = None")
      case True
      with ok "1.prems" have "k = ?x"
        by (subst (asm) scan.simps) (simp add: Let_def)
      with ok True show ?thesis by simp
    next
      case False
      with ok "1.prems" have rec: "scan tab n c (i + 1) = Inr k"
        by (subst (asm) scan.simps) (simp add: Let_def)
      show ?thesis
        by (rule "1.IH" [OF _ _ refl _ False rec]) (use ok in simp_all)
    qed
  qed
qed

lemma new_running_ok:
  assumes "running_ok S" and "coroutine_new S f u = Inr (cid, S')"
  shows "running_ok S'"
proof (cases "running S = - 1")
  case True
  moreover from assms(2) have "running S' = running S"
    by (auto simp: coroutine_new_def Let_def split: if_splits sum.splits)
  ultimately show ?thesis by (simp add: running_ok_def)
next
  case False
  with assms(1) obtain C where r: "0 \<le> running S" "running S < cap S"
    "running S < int (length (co S))" and C: "co S ! nat (running S) = Some C"
    "status C = COROUTINE_RUNNING"
    by (auto simp: running_ok_def split: option.splits)
  show ?thesis
  proof (cases "cap S \<le> nco S")
    case True
    with assms(2) have ok: "0 \<le> cap S" "cap S \<le> int (length (co S))"
      and S': "S' = S\<lparr>co := (take (nat (cap S)) (co S) @ replicate (nat (cap S)) None)
                              [nat (cap S) := Some (co_new f u)],
                      cap := cap S * 2, nco := nco S + 1\<rparr>"
      by (auto simp: coroutine_new_def Let_def split: if_splits)
    from r ok have "(take (nat (cap S)) (co S) @ replicate (nat (cap S)) None)
        [nat (cap S) := Some (co_new f u)] ! nat (running S) = co S ! nat (running S)"
      by (simp add: nth_append)
    with r ok C show ?thesis by (simp add: S' running_ok_def)
  next
    case False
    with assms(2) obtain k where k: "scan (co S) (nco S) (cap S) 0 = Inr k"
      and S': "S' = S\<lparr>co := (co S)[nat k := Some (co_new f u)], nco := nco S + 1\<rparr>"
      by (auto simp: coroutine_new_def Let_def split: if_splits sum.splits)
    from scan_Inr [OF k] C(1) r have "nat k \<noteq> nat (running S)" by auto
    with r C show ?thesis by (simp add: S' running_ok_def)
  qed
qed

lemma resume_running_ok:
  assumes "coroutine_resume S cid = Inr (t, S')"
  shows "running_ok S'"
  using assms
  by (auto simp: coroutine_resume_def running_ok_def
           split: if_splits option.splits co_status.splits sum.splits)

lemma yield_running_ok: "coroutine_yield S a d = Inr S' \<Longrightarrow> running_ok S'"
  by (drule yield_Inr) (auto simp: running_ok_def)

lemma mainfunc_running_ok: "mainfunc S cid = Inr S' \<Longrightarrow> running_ok S'"
  by (drule mainfunc_Inr) (auto simp: running_ok_def)

lemma exec_running_ok:
  assumes "running_ok S" and "exec e S = Inr S'"
  shows "running_ok S'"
proof (cases e)
  case (New f u)
  with assms show ?thesis by (auto split: sum.splits dest: new_running_ok)
next
  case (Resume cid)
  with assms show ?thesis by (auto split: sum.splits dest: resume_running_ok)
next
  case (Yield a d)
  with assms show ?thesis by (auto dest: yield_running_ok)
next
  case Finish
  with assms show ?thesis by (auto dest: mainfunc_running_ok)
next
  case (Status cid)
  with assms show ?thesis by (auto split: sum.splits)
next
  case Running
  with assms show ?thesis by (auto simp: Let_def)
next
  case (Store i b)
  with assms show ?thesis by (auto simp: running_ok_def split: if_splits)
qed

lemma run_running_ok:
  "running_ok S \<Longrightarrow> run es S = Inr S' \<Longrightarrow> running_ok S'"
proof (induction es arbitrary: S)
  case Nil
  then show ?case by simp
next
  case (Cons e es)
  from Cons.prems(2) obtain S1 where e: "exec e S = Inr S1" and r: "run es S1 = Inr S'"
    by (auto split: sum.splits)
  from Cons.IH [OF exec_running_ok [OF Cons.prems(1) e] r] show ?case .
qed

text \<open>
  Claim C8. The running id is \<open>- 1\<close> or a valid index of a slot holding a coroutine whose
  status is Running: this holds for a scheduler just opened, and every operation that
  returns (register, resume, yield, the completion of the trampoline, status, running id,
  and a store into the shared stack) preserves it, as does every sequence of them.
\<close>

theorem running_id_invariant:
  "running_ok (coroutine_open mem)
   \<and> (running_ok S \<and> exec e S = Inr S' \<longrightarrow> running_ok S')
   \<and> (running_ok S \<and> run es S = Inr S'' \<longrightarrow> running_ok S'')"
  using exec_running_ok [of S e S'] run_running_ok [of S es S'']
  by (auto simp: running_ok_def coroutine_open_def)

theorem running_id_invariant_witness:
  "running_ok sched_sparse
   \<and> exec (Resume 1) sched_sparse =
       Inr (sched_sparse\<lparr>co := (co sched_sparse)[1 := Some ((co_new 0 0)\<lparr>status := COROUTINE_RUNNING\<rparr>)],
              running := 1\<rparr>)
   \<and> running_ok (sched_sparse\<lparr>co := (co sched_sparse)[1 := Some ((co_new 0 0)\<lparr>status := COROUTINE_RUNNING\<rparr>)],
              running := 1\<rparr>)
   \<and> run [Resume 1, New 5 6, Finish] sched_sparse =
       Inr (sched_sparse\<lparr>co := (co sched_sparse)[1 := None, 2 := Some (co_new 5 6)]\<rparr>)
   \<and> running_ok (sched_sparse\<lparr>co := (co sched_sparse)[1 := None, 2 := Some (co_new 5 6)]\<rparr>)"
proof -
  let ?S1 = "sched_sparse\<lparr>co := (co sched_sparse)[1 := Some ((co_new 0 0)\<lparr>status := COROUTINE_RUNNING\<rparr>)],
              running := 1\<rparr>"
  let ?S2 = "sched_sparse\<lparr>co := (co sched_sparse)[1 := None, 2 := Some (co_new 5 6)]\<rparr>"
  have a: "running_ok sched_sparse" by (simp add: running_ok_def sched_sparse_def)
  have b: "exec (Resume 1) sched_sparse = Inr ?S1"
    by (simp add: coroutine_resume_def sched_sparse_def co_new_def)
  have c: "run [Resume 1, New 5 6, Finish] sched_sparse = Inr ?S2"
    by (simp add: coroutine_resume_def sched_sparse_def co_new_def coroutine_new_def scan.simps
        int_ok_def INT_MAX_def INT_MIN_def signed_modulo_int_def Let_def mainfunc_def
        list_update_swap)
  note inv = running_id_invariant [of mem0 sched_sparse "Resume 1" ?S1
      "[Resume 1, New 5 6, Finish]" ?S2]
  from inv a b have d: "running_ok ?S1" by blast
  from inv a c have e: "running_ok ?S2" by blast
  from a b c d e show ?thesis by blast
qed

section \<open>The round trip of the saved stack\<close>

lemma yield_ok:
  assumes "schedule_wf S" and "0 \<le> running S" and "running S < cap S"
    and "co S ! nat (running S) = Some C"
    and "0 < a" and "0 \<le> d" and "d \<le> STACK_SIZE"
  shows "\<exists>C' mem'. save_stack C (stack S) STACK_SIZE d = Inr (C', mem')
      \<and> coroutine_yield S a d =
          Inr (S\<lparr>stack := mem',
                 co := (co S)[nat (running S) := Some (C'\<lparr>status := COROUTINE_SUSPEND\<rparr>)],
                 running := - 1\<rparr>)"
proof -
  from assms(1) have len: "int (length (co S)) = cap S" and sl: "int (length (stack S)) = STACK_SIZE"
    by (simp_all add: schedule_wf_def)
  from assms(2,3) len have inb: "nat (running S) < length (co S)" by simp
  from slots_wf_nth [OF _ inb assms(4)] assms(1) have "co_wf C" by (simp add: schedule_wf_def)
  then have cl: "int (length (co_stack C)) = co_cap C" by (simp add: co_wf_def)
  from save_stack_ok [OF sl assms(6,7) cl] obtain C' mem' where
    sv: "save_stack C (stack S) STACK_SIZE d = Inr (C', mem')" by blast
  with assms(2-5) len show ?thesis
    by (simp add: coroutine_yield_def Let_def)
qed

lemma new_frame:
  assumes "coroutine_new S f u = Inr (cid, S')"
  shows "running S' = running S" and "stack S' = stack S" and "cap S \<le> cap S'"
  using assms
  by (auto simp: coroutine_new_def Let_def split: if_splits sum.splits)

lemma exec_keeps_slot:
  assumes "schedule_wf S" and "exec e S = Inr S'" and "e \<noteq> Resume cid"
    and "running S \<noteq> cid" and "0 \<le> cid" and "cid < cap S" and "co S ! nat cid = Some C"
  shows "running S' \<noteq> cid \<and> cid < cap S' \<and> co S' ! nat cid = Some C"
proof (cases e)
  case (New f u)
  with assms(2) obtain k where n: "coroutine_new S f u = Inr (k, S')"
    by (auto split: sum.splits)
  note p = new_Inr [OF assms(1) n] and q = new_frame [OF n]
  from p(2) assms(6,7) have "k \<noteq> cid" by auto
  with p(5) assms(5-7) have "co S' ! nat cid = Some C" by simp
  with q assms(4,6) show ?thesis by simp
next
  case (Resume k)
  with assms(3) have ne: "k \<noteq> cid" by simp
  from Resume assms(2) obtain t where r: "coroutine_resume S k = Inr (t, S')"
    by (auto split: sum.splits)
  then have k: "0 \<le> k" by (auto simp: coroutine_resume_def split: if_splits)
  with ne assms(5) have "nat k \<noteq> nat cid" by simp
  with r ne assms(4,6,7) show ?thesis
    by (auto simp: coroutine_resume_def
             split: if_splits option.splits co_status.splits sum.splits)
next
  case (Yield a d)
  with assms(2) have "coroutine_yield S a d = Inr S'" by simp
  from yield_Inr [OF this] assms(4-7) show ?thesis by auto
next
  case Finish
  with assms(2) have "mainfunc S (running S) = Inr S'" by simp
  from mainfunc_Inr [OF this] assms(4-7) show ?thesis by auto
next
  case (Status k)
  with assms show ?thesis by (auto split: sum.splits)
next
  case Running
  with assms show ?thesis by (auto simp: Let_def)
next
  case (Store i b)
  with assms show ?thesis by (auto split: if_splits)
qed

lemma run_keeps_slot:
  "schedule_wf S \<Longrightarrow> run es S = Inr S' \<Longrightarrow> Resume cid \<notin> set es \<Longrightarrow>
   running S \<noteq> cid \<Longrightarrow> 0 \<le> cid \<Longrightarrow> cid < cap S \<Longrightarrow> co S ! nat cid = Some C \<Longrightarrow>
   running S' \<noteq> cid \<and> cid < cap S' \<and> co S' ! nat cid = Some C"
proof (induction es arbitrary: S)
  case Nil
  then show ?case by simp
next
  case (Cons e es)
  from Cons.prems(2) obtain S1 where e: "exec e S = Inr S1" and r: "run es S1 = Inr S'"
    by (auto split: sum.splits)
  from Cons.prems(3) have ne: "e \<noteq> Resume cid" and rest: "Resume cid \<notin> set es" by auto
  from exec_keeps_slot [OF Cons.prems(1) e ne Cons.prems(4-7)]
  have k: "running S1 \<noteq> cid" "cid < cap S1" "co S1 ! nat cid = Some C" by simp_all
  from Cons.IH [OF exec_wf [OF Cons.prems(1) e] r rest k(1) Cons.prems(5) k(2,3)]
  show ?case .
qed

lemma round_trip_cycle:
  assumes "schedule_wf S0" and "running S0 = cid"
    and "coroutine_yield S0 addr_C addr_dummy = Inr S1"
    and "run es S1 = Inr S2" and "Resume cid \<notin> set es" and "running S2 = - 1"
  shows "\<exists>C1 S3. co S1 ! nat cid = Some C1
      \<and> co_size C1 = STACK_SIZE - addr_dummy
      \<and> take (nat (co_size C1)) (co_stack C1) = drop (nat addr_dummy) (stack S1)
      \<and> coroutine_resume S2 cid = Inr (Switch_Saved, S3)
      \<and> int (length (stack S3)) = STACK_SIZE
      \<and> drop (nat addr_dummy) (stack S3) = drop (nat addr_dummy) (stack S1)
      \<and> (\<forall>i. addr_dummy < i \<and> i < STACK_SIZE \<longrightarrow> stack S3 ! nat i = stack S0 ! nat i)
      \<and> co S3 ! nat cid = Some (C1\<lparr>status := COROUTINE_RUNNING\<rparr>) \<and> running S3 = cid"
proof -
  let ?d = "nat addr_dummy"
  let ?n = "STACK_SIZE - addr_dummy"
  from assms(1) have len0: "int (length (co S0)) = cap S0"
    and sl0: "int (length (stack S0)) = STACK_SIZE"
    by (simp_all add: schedule_wf_def)
  from yield_Inr [OF assms(3)] assms(2) obtain C C' mem where
    c: "0 \<le> cid" "cid < int (length (co S0))" and C: "co S0 ! nat cid = Some C"
    and sv: "save_stack C (stack S0) STACK_SIZE addr_dummy = Inr (C', mem)"
    and S1: "S1 = S0\<lparr>stack := mem,
                     co := (co S0)[nat cid := Some (C'\<lparr>status := COROUTINE_SUSPEND\<rparr>)],
                     running := - 1\<rparr>"
    by auto
  from c have inb: "nat cid < length (co S0)" by simp
  from slots_wf_nth [OF _ inb C] assms(1) have "co_wf C" by (simp add: schedule_wf_def)
  then have cl: "int (length (co_stack C)) = co_cap C" by (simp add: co_wf_def)
  note p = save_stack_Inr [OF sv sl0]
  let ?C1 = "C'\<lparr>status := COROUTINE_SUSPEND\<rparr>"
  from inb have slot1: "co S1 ! nat cid = Some ?C1" by (simp add: S1)
  from p(3) sl0 have lm: "int (length mem) = STACK_SIZE" by simp
  with p(1,2) have ld: "length (drop ?d mem) = nat ?n" by simp
  from p(9) [OF cl] ld have tk: "take (nat ?n) (co_stack C') = drop ?d mem" by simp
  have wf1: "schedule_wf S1" by (rule yield_wf [OF assms(1,3)])
  from c have r1: "running S1 \<noteq> cid" and c1: "cid < cap S1"
    using len0 by (simp_all add: S1)
  from run_keeps_slot [OF wf1 assms(4,5) r1 c(1) c1 slot1]
  have c2: "cid < cap S2" and slot2: "co S2 ! nat cid = Some ?C1" by simp_all
  have wf2: "schedule_wf S2" by (rule run_wf [OF wf1 assms(4)])
  then have sl2: "int (length (stack S2)) = STACK_SIZE" by (simp add: schedule_wf_def)
  let ?mem3 = "take (nat (STACK_SIZE - co_size ?C1)) (stack S2) @ take (nat (co_size ?C1)) (co_stack ?C1)"
  let ?S3 = "S2\<lparr>stack := ?mem3, running := cid,
                co := (co S2)[nat cid := Some (?C1\<lparr>status := COROUTINE_RUNNING\<rparr>)]\<rparr>"
  have res: "coroutine_resume S2 cid = Inr (Switch_Saved, ?S3)"
    by (rule resume_suspended_eq [OF wf2 assms(6) c(1) c2 slot2]) simp
  from p(1,2,4) have off: "nat (STACK_SIZE - co_size ?C1) = ?d" by simp
  from sl2 p(1,2) have lt: "length (take ?d (stack S2)) = ?d" by simp
  from tk p(4) off have m3: "?mem3 = take ?d (stack S2) @ drop ?d mem" by simp
  have "drop ?d (take ?d (stack S2) @ drop ?d mem) = drop ?d mem" using lt by simp
  then have dr: "drop ?d ?mem3 = drop ?d mem" by (simp only: m3)
  have "int (length (take ?d (stack S2) @ drop ?d mem)) = STACK_SIZE"
    using lt ld p(1,2) by simp
  then have l3: "int (length ?mem3) = STACK_SIZE" by (simp only: m3)
  have el: "\<forall>i. addr_dummy < i \<and> i < STACK_SIZE \<longrightarrow> ?mem3 ! nat i = stack S0 ! nat i"
  proof (intro allI impI)
    fix i :: int
    assume i: "addr_dummy < i \<and> i < STACK_SIZE"
    with p(1) have ge: "?d \<le> nat i" and ne: "nat i \<noteq> ?d" by linarith+
    from i lm p(1) have il: "nat i < length mem" by linarith
    have "?mem3 ! nat i = (take ?d (stack S2) @ drop ?d mem) ! nat i"
      by (simp only: m3)
    also have "\<dots> = drop ?d mem ! (nat i - ?d)"
    proof -
      from ge lt have "\<not> nat i < length (take ?d (stack S2))" by linarith
      then show ?thesis by (simp only: nth_append if_False lt)
    qed
    also from ge il have "\<dots> = mem ! nat i" by simp
    also from ne have "\<dots> = stack S0 ! nat i" by (simp add: p(3))
    finally show "?mem3 ! nat i = stack S0 ! nat i" .
  qed
  from wf2 have "int (length (co S2)) = cap S2" by (simp add: schedule_wf_def)
  with c2 c(1) have inb2: "nat cid < length (co S2)" by linarith
  have "co S1 ! nat cid = Some ?C1
      \<and> co_size ?C1 = ?n
      \<and> take (nat (co_size ?C1)) (co_stack ?C1) = drop ?d (stack S1)
      \<and> coroutine_resume S2 cid = Inr (Switch_Saved, ?S3)
      \<and> int (length (stack ?S3)) = STACK_SIZE
      \<and> drop ?d (stack ?S3) = drop ?d (stack S1)
      \<and> (\<forall>i. addr_dummy < i \<and> i < STACK_SIZE \<longrightarrow> stack ?S3 ! nat i = stack S0 ! nat i)
      \<and> co ?S3 ! nat cid = Some (?C1\<lparr>status := COROUTINE_RUNNING\<rparr>) \<and> running ?S3 = cid"
    using slot1 p(4) tk res l3 dr el inb2 by (simp add: S1)
  then show ?thesis by blast
qed

text \<open>
  Claim C1. Take any run from a well-formed scheduler (any number of earlier cycles of
  yield and resume included) after which coroutine \<open>cid\<close> is running and yields, with its
  frames occupying the \<open>n = STACK_SIZE - addr_dummy\<close> bytes at the top of the shared stack.
  The yield copies these \<open>n\<close> bytes into its private buffer. Whatever happens next without
  resuming it (other coroutines are registered, started, resumed, overwrite the shared
  stack, yield and finish), once control is back in the main context the next resume of
  the coroutine succeeds and puts the \<open>n\<close> bytes back at the same offsets: the region from
  \<open>addr_dummy\<close> to the top is byte for byte what it was when the yield saved it, and above
  the local \<^verbatim>\<open>dummy\<close> what it was when yield was called.
\<close>

theorem stack_round_trip:
  assumes "schedule_wf S" and "run pre S = Inr S0" and "running S0 = cid"
    and "coroutine_yield S0 addr_C addr_dummy = Inr S1"
    and "run es S1 = Inr S2" and "Resume cid \<notin> set es" and "running S2 = - 1"
  shows "\<exists>C1 S3. co S1 ! nat cid = Some C1
      \<and> co_size C1 = STACK_SIZE - addr_dummy
      \<and> take (nat (co_size C1)) (co_stack C1) = drop (nat addr_dummy) (stack S1)
      \<and> coroutine_resume S2 cid = Inr (Switch_Saved, S3)
      \<and> int (length (stack S3)) = STACK_SIZE
      \<and> drop (nat addr_dummy) (stack S3) = drop (nat addr_dummy) (stack S1)
      \<and> (\<forall>i. addr_dummy < i \<and> i < STACK_SIZE \<longrightarrow> stack S3 ! nat i = stack S0 ! nat i)
      \<and> co S3 ! nat cid = Some (C1\<lparr>status := COROUTINE_RUNNING\<rparr>) \<and> running S3 = cid"
proof -
  have "schedule_wf S0" by (rule run_wf [OF assms(1,2)])
  from round_trip_cycle [OF this assms(3-7)] show ?thesis .
qed

lemma sched_running_yield:
  "coroutine_yield sched_running 1048574 1048573 = Inr sched_yielded"
  by (simp add: coroutine_yield_def sched_running_def sched_yielded_def co_running_def
      save_stack_def memcpy_def STACK_SIZE_def Let_def list_update_append)

lemma run_trace: "run trace sched_yielded = Inr sched_later"
  by (simp add: trace_def sched_yielded_def sched_later_def sched_running_def co_running_def
      coroutine_new_def scan.simps int_ok_def INT_MAX_def INT_MIN_def signed_modulo_int_def
      coroutine_resume_def co_new_def mainfunc_def Let_def list_update_append numeral_2_eq_2)

lemma mem0_split: "mem0 = replicate 1048573 0 @ [0, 0, 0]"
proof -
  have "replicate 1048573 (0::byte) @ replicate 3 0 = replicate (1048573 + 3) 0"
    by (simp only: replicate_add)
  moreover have "replicate 3 (0::byte) = [0, 0, 0]" by (simp add: numeral_3_eq_3)
  ultimately show ?thesis by (simp add: mem0_def STACK_SIZE_def)
qed

lemma replicate_16: "replicate 16 x = x # replicate 15 x"
  by (simp add: numeral_eq_Suc)

lemma run_start: "run start sched_fresh = Inr sched_running"
  by (simp add: start_def sched_fresh_def coroutine_open_def mem0_split sched_running_def
      co_running_def DEFAULT_COROUTINE_def replicate_16 STACK_SIZE_def
      coroutine_new_def scan.simps int_ok_def INT_MAX_def INT_MIN_def signed_modulo_int_def
      coroutine_resume_def co_new_def Let_def list_update_append numeral_2_eq_2)

theorem stack_round_trip_witness:
  "schedule_wf sched_fresh \<and> run start sched_fresh = Inr sched_running
   \<and> running sched_running = 0
   \<and> coroutine_yield sched_running 1048574 1048573 = Inr sched_yielded
   \<and> run trace sched_yielded = Inr sched_later \<and> Resume 0 \<notin> set trace
   \<and> running sched_later = - 1
   \<and> drop 1048573 (stack sched_yielded) = [0, 8, 9]
   \<and> drop 1048573 (stack sched_later) = [0, 41, 42]
   \<and> (\<exists>S3. coroutine_resume sched_later 0 = Inr (Switch_Saved, S3)
          \<and> drop 1048573 (stack S3) = [0, 8, 9])"
proof -
  have r0: "running sched_running = 0" by (simp add: sched_running_def)
  have nr: "Resume 0 \<notin> set trace" by (simp add: trace_def)
  have r2: "running sched_later = - 1" by (simp add: sched_later_def sched_yielded_def)
  have d1: "drop 1048573 (stack sched_yielded) = [0, 8, 9]" by (simp add: sched_yielded_def)
  have d2: "drop 1048573 (stack sched_later) = [0, 41, 42]" by (simp add: sched_later_def)
  from stack_round_trip [OF sched_fresh_wf run_start r0 sched_running_yield run_trace nr r2]
  obtain S3 where "coroutine_resume sched_later 0 = Inr (Switch_Saved, S3)"
    and "drop (nat 1048573) (stack S3) = drop (nat 1048573) (stack sched_yielded)"
    by blast
  with d1 have "\<exists>S3. coroutine_resume sched_later 0 = Inr (Switch_Saved, S3)
      \<and> drop 1048573 (stack S3) = [0, 8, 9]"
    by simp
  with sched_fresh_wf run_start r0 sched_running_yield run_trace nr r2 d1 d2 show ?thesis
    by blast
qed

section \<open>Life cycle\<close>

text \<open>
  Claim C5. Registration succeeds and the status of the new id is Ready. Resume of a Ready
  coroutine (its first resume) switches into a fresh context with the status Running and
  the running id equal to the id. A yield of the running coroutine leaves its status
  Suspended. When the entry function of the running coroutine returns, the trampoline
  deletes the object: the slot is empty, the status is Dead, the count is one less and
  the running id is \<open>- 1\<close>.
\<close>

theorem lifecycle:
  "(schedule_wf Sa \<and> (nco Sa < cap Sa \<or> cap Sa < 2 ^ 30) \<longrightarrow>
      (\<exists>cid S'. coroutine_new Sa f u = Inr (cid, S')
          \<and> coroutine_status S' cid = Inr COROUTINE_READY))
   \<and> (schedule_wf Sb \<and> running Sb = - 1 \<and> coroutine_status Sb b = Inr COROUTINE_READY \<longrightarrow>
      (\<exists>S'. coroutine_resume Sb b = Inr (Switch_Fresh, S')
          \<and> coroutine_status S' b = Inr COROUTINE_RUNNING \<and> coroutine_running S' = b))
   \<and> (schedule_wf Sc \<and> coroutine_running Sc = c \<and> coroutine_status Sc c = Inr COROUTINE_RUNNING
       \<and> 0 < addr_C \<and> 0 \<le> addr_dummy \<and> addr_dummy \<le> STACK_SIZE \<longrightarrow>
      (\<exists>S'. coroutine_yield Sc addr_C addr_dummy = Inr S'
          \<and> coroutine_status S' c = Inr COROUTINE_SUSPEND \<and> coroutine_running S' = - 1))
   \<and> (schedule_wf Sd \<and> coroutine_running Sd = d \<and> coroutine_status Sd d = Inr COROUTINE_RUNNING \<longrightarrow>
      (\<exists>S'. mainfunc Sd d = Inr S'
          \<and> co S' ! nat d = None \<and> coroutine_status S' d = Inr COROUTINE_DEAD
          \<and> nco S' = nco Sd - 1 \<and> coroutine_running S' = - 1))"
proof (intro conjI impI)
  assume h: "schedule_wf Sa \<and> (nco Sa < cap Sa \<or> cap Sa < 2 ^ 30)"
  then have wf: "schedule_wf Sa" by simp
  have "\<exists>cid S'. coroutine_new Sa f u = Inr (cid, S')"
  proof (cases "nco Sa < cap Sa")
    case True
    from new_scan [OF wf True, of f u] show ?thesis by blast
  next
    case False
    with h have "cap Sa \<le> nco Sa" "cap Sa < 2 ^ 30" by simp_all
    from new_full [OF wf this, of f u] show ?thesis by blast
  qed
  then obtain cid S' where n: "coroutine_new Sa f u = Inr (cid, S')" by blast
  note p = new_Inr [OF wf n]
  from new_wf [OF wf n] have "int (length (co S')) = cap S'" by (simp add: schedule_wf_def)
  with p(1,3,4) have "coroutine_status S' cid = Inr COROUTINE_READY"
    by (simp add: coroutine_status_def co_new_def)
  with n show "\<exists>cid S'. coroutine_new Sa f u = Inr (cid, S')
      \<and> coroutine_status S' cid = Inr COROUTINE_READY" by blast
next
  assume h: "schedule_wf Sb \<and> running Sb = - 1 \<and> coroutine_status Sb b = Inr COROUTINE_READY"
  then have len: "int (length (co Sb))= cap Sb" by (simp add: schedule_wf_def)
  from h obtain C where b: "0 \<le> b" "b < cap Sb" and C: "co Sb ! nat b = Some C"
    "status C = COROUTINE_READY"
    by (auto simp: coroutine_status_def split: if_splits option.splits)
  let ?S' = "Sb\<lparr>co := (co Sb)[nat b := Some (C\<lparr>status := COROUTINE_RUNNING\<rparr>)], running := b\<rparr>"
  from h b C len have "coroutine_resume Sb b = Inr (Switch_Fresh, ?S')"
    by (simp add: coroutine_resume_def)
  moreover from b len have "coroutine_status ?S' b = Inr COROUTINE_RUNNING"
    by (simp add: coroutine_status_def)
  ultimately show "\<exists>S'. coroutine_resume Sb b = Inr (Switch_Fresh, S')
      \<and> coroutine_status S' b = Inr COROUTINE_RUNNING \<and> coroutine_running S' = b"
    by (simp add: coroutine_running_def)
next
  assume h: "schedule_wf Sc \<and> coroutine_running Sc = c \<and> coroutine_status Sc c = Inr COROUTINE_RUNNING
       \<and> 0 < addr_C \<and> 0 \<le> addr_dummy \<and> addr_dummy \<le> STACK_SIZE"
  then have wf: "schedule_wf Sc" and r: "running Sc = c" by (simp_all add: coroutine_running_def)
  from wf have len: "int (length (co Sc))= cap Sc" by (simp add: schedule_wf_def)
  from h obtain C where c: "0 \<le> c" "c < cap Sc" and C: "co Sc ! nat c = Some C"
    by (auto simp: coroutine_status_def split: if_splits option.splits)
  from h have ad: "0 < addr_C" "0 \<le> addr_dummy" "addr_dummy \<le> STACK_SIZE" by simp_all
  from yield_ok [OF wf c(1) [folded r] c(2) [folded r] C [folded r] ad]
  obtain S' C' where y: "coroutine_yield Sc addr_C addr_dummy = Inr S'"
    and S': "co S' = (co Sc)[nat (running Sc) := Some (C'\<lparr>status := COROUTINE_SUSPEND\<rparr>)]"
      "running S' = - 1" "cap S' = cap Sc"
    by auto
  from S' c len r have "coroutine_status S' c = Inr COROUTINE_SUSPEND"
    by (simp add: coroutine_status_def)
  with y S'(2) show "\<exists>S'. coroutine_yield Sc addr_C addr_dummy = Inr S'
      \<and> coroutine_status S' c = Inr COROUTINE_SUSPEND \<and> coroutine_running S' = - 1"
    by (auto simp: coroutine_running_def)
next
  assume h: "schedule_wf Sd \<and> coroutine_running Sd = d \<and> coroutine_status Sd d = Inr COROUTINE_RUNNING"
  then have wf: "schedule_wf Sd" by simp
  from wf have len: "int (length (co Sd))= cap Sd" by (simp add: schedule_wf_def)
  from h obtain C where d: "0 \<le> d" "d < cap Sd" and C: "co Sd ! nat d = Some C"
    by (auto simp: coroutine_status_def split: if_splits option.splits)
  let ?S' = "Sd\<lparr>co := (co Sd)[nat d := None], nco := nco Sd - 1, running := - 1\<rparr>"
  from mainfunc_ok [OF wf d C] have m: "mainfunc Sd d = Inr ?S'" .
  moreover from d len have "co ?S' ! nat d = None \<and> coroutine_status ?S' d = Inr COROUTINE_DEAD"
    by (simp add: coroutine_status_def)
  ultimately show "\<exists>S'. mainfunc Sd d = Inr S'
          \<and> co S' ! nat d = None \<and> coroutine_status S' d = Inr COROUTINE_DEAD
          \<and> nco S' = nco Sd - 1 \<and> coroutine_running S' = - 1"
    by (simp add: coroutine_running_def)
qed

theorem lifecycle_witness:
  "schedule_wf sched_fresh \<and> nco sched_fresh < cap sched_fresh
   \<and> (\<exists>cid S'. coroutine_new sched_fresh 5 6 = Inr (cid, S')
          \<and> coroutine_status S' cid = Inr COROUTINE_READY)
   \<and> schedule_wf sched_sparse \<and> running sched_sparse = - 1
   \<and> coroutine_status sched_sparse 1 = Inr COROUTINE_READY
   \<and> (\<exists>S'. coroutine_resume sched_sparse 1 = Inr (Switch_Fresh, S')
          \<and> coroutine_status S' 1 = Inr COROUTINE_RUNNING \<and> coroutine_running S' = 1)
   \<and> schedule_wf sched_running \<and> coroutine_running sched_running = 0
   \<and> coroutine_status sched_running 0 = Inr COROUTINE_RUNNING
   \<and> (\<exists>S'. coroutine_yield sched_running 1048574 1048573 = Inr S'
          \<and> coroutine_status S' 0 = Inr COROUTINE_SUSPEND \<and> coroutine_running S' = - 1)
   \<and> (\<exists>S'. mainfunc sched_running 0 = Inr S'
          \<and> co S' ! nat 0 = None \<and> coroutine_status S' 0 = Inr COROUTINE_DEAD
          \<and> nco S' = nco sched_running - 1 \<and> coroutine_running S' = - 1)"
proof -
  have a: "nco sched_fresh < cap sched_fresh"
    by (simp add: sched_fresh_def coroutine_open_def DEFAULT_COROUTINE_def)
  have b: "running sched_sparse = - 1" "coroutine_status sched_sparse 1 = Inr COROUTINE_READY"
    by (simp_all add: sched_sparse_def coroutine_status_def co_new_def)
  have c: "coroutine_running sched_running = 0"
    "coroutine_status sched_running 0 = Inr COROUTINE_RUNNING"
    by (simp_all add: sched_running_def coroutine_running_def coroutine_status_def co_running_def)
  have d: "(0::int) < 1048574" "(0::int) \<le> 1048573" "1048573 \<le> STACK_SIZE"
    by (simp_all add: STACK_SIZE_def)
  note l = lifecycle [where Sa = sched_fresh and f = 5 and u = 6 and Sb = sched_sparse and b = 1
      and Sc = sched_running and c = 0 and addr_C = 1048574 and addr_dummy = 1048573
      and Sd = sched_running and d = 0]
  from l sched_fresh_wf a
  have A: "\<exists>cid S'. coroutine_new sched_fresh 5 6 = Inr (cid, S')
          \<and> coroutine_status S' cid = Inr COROUTINE_READY" by blast
  from l sched_sparse_wf b
  have B: "\<exists>S'. coroutine_resume sched_sparse 1 = Inr (Switch_Fresh, S')
          \<and> coroutine_status S' 1 = Inr COROUTINE_RUNNING \<and> coroutine_running S' = 1" by blast
  from l sched_running_wf c d
  have C: "\<exists>S'. coroutine_yield sched_running 1048574 1048573 = Inr S'
          \<and> coroutine_status S' 0 = Inr COROUTINE_SUSPEND \<and> coroutine_running S' = - 1" by blast
  from l sched_running_wf c
  have D: "\<exists>S'. mainfunc sched_running 0 = Inr S'
          \<and> co S' ! nat 0 = None \<and> coroutine_status S' 0 = Inr COROUTINE_DEAD
          \<and> nco S' = nco sched_running - 1 \<and> coroutine_running S' = - 1" by blast
  from sched_fresh_wf a A sched_sparse_wf b B sched_running_wf c C D show ?thesis by blast
qed

end
